theory Spec2Isabelle
  imports Main
begin

chapter \<open>The order handlers of the kitchen display server\<close>

text \<open>
  \<open>server.js\<close> is an Express application over one SQLite file with a socket.io
  broadcast. This theory embeds its order handlers: the table \<open>orders\<close> and the SQL
  statements they run, \<open>JSON.stringify\<close> and \<open>JSON.parse\<close> for the column
  \<open>items_json\<close>, and each handler as a function from the table and the request to the
  table it leaves and what it wrote, emitted, sent or threw.
\<close>

section \<open>JavaScript values that travel as JSON\<close>

text \<open>
  \<open>server.js\<close> keeps the line items of an order as JSON text in the column
  \<open>items_json\<close>: it writes them with \<open>JSON.stringify\<close> and reads them with
  \<open>JSON.parse\<close>. The values are those \<open>bodyParser.json()\<close> hands to a handler.

  Numbers are the integer-valued ones (written in plain decimal, which is what
  \<open>JSON.stringify\<close> does below 10^21) and the two infinities, which a request body
  denotes by a literal beyond the double range such as \<open>1e400\<close>. Strings are lists of
  code units below 256. An object is the list of its properties in enumeration order;
  a JavaScript object has each key once (\<open>wf_json\<close>).
\<close>

datatype number = Finite int | PosInfinity | NegInfinity

datatype json =
    JNull
  | JBool bool
  | JNum number
  | JStr string
  | JArr "json list"
  | JObj "(string \<times> json) list"

fun wf_json :: "json \<Rightarrow> bool" where
  "wf_json (JArr vs) = (\<forall>v \<in> set vs. wf_json v)"
| "wf_json (JObj kvs) = (distinct (map fst kvs) \<and> (\<forall>kv \<in> set kvs. wf_json (snd kv)))"
| "wf_json _ = True"

datatype js_error = TypeError | SyntaxError

abbreviation dquote :: char where "dquote \<equiv> CHR 0x22"
abbreviation backslash :: char where "backslash \<equiv> CHR 0x5C"

subsection \<open>\<open>JSON.stringify\<close>\<close>

definition digit_char :: "nat \<Rightarrow> char" where
  "digit_char d = char_of (48 + d)"

fun nat_digits :: "nat \<Rightarrow> string" where
  "nat_digits n = (if n < 10 then [digit_char n] else nat_digits (n div 10) @ [digit_char (n mod 10)])"

declare nat_digits.simps [simp del]

definition int_text :: "int \<Rightarrow> string" where
  "int_text i = (if i < 0 then CHR ''-'' # nat_digits (nat (- i)) else nat_digits (nat i))"

text \<open>A number that is not finite is written \<open>null\<close>.\<close>

fun number_json :: "number \<Rightarrow> string" where
  "number_json (Finite i) = int_text i"
| "number_json PosInfinity = ''null''"
| "number_json NegInfinity = ''null''"

definition hex_char :: "nat \<Rightarrow> char" where
  "hex_char d = (if d < 10 then char_of (48 + d) else char_of (87 + d))"

text \<open>\<open>QuoteJSONString\<close>: the two-character escapes, \<open>\u00XX\<close> for the other control
  characters, every other code unit as it is.\<close>

definition escape :: "char \<Rightarrow> string" where
  "escape c =
     (if c = CHR 0x08 then [backslash, CHR ''b'']
      else if c = CHR 0x09 then [backslash, CHR ''t'']
      else if c = CHR 0x0A then [backslash, CHR ''n'']
      else if c = CHR 0x0C then [backslash, CHR ''f'']
      else if c = CHR 0x0D then [backslash, CHR ''r'']
      else if c = dquote then [backslash, dquote]
      else if c = backslash then [backslash, backslash]
      else if (of_char c :: nat) < 32
        then [backslash, CHR ''u'', CHR ''0'', CHR ''0'',
              hex_char (of_char c div 16), hex_char (of_char c mod 16)]
      else [c])"

definition quote :: "string \<Rightarrow> string" where
  "quote s = dquote # concat (map escape s) @ [dquote]"

fun commas :: "string list \<Rightarrow> string" where
  "commas [] = []"
| "commas [x] = x"
| "commas (x # y # ys) = x @ CHR '','' # commas (y # ys)"

fun JSON_stringify :: "json \<Rightarrow> string" where
  "JSON_stringify JNull = ''null''"
| "JSON_stringify (JBool b) = (if b then ''true'' else ''false'')"
| "JSON_stringify (JNum x) = number_json x"
| "JSON_stringify (JStr s) = quote s"
| "JSON_stringify (JArr vs) = CHR ''['' # commas (map JSON_stringify vs) @ '']''"
| "JSON_stringify (JObj kvs) =
     CHR ''{'' # commas (map (\<lambda>kv. quote (fst kv) @ CHR '':'' # JSON_stringify (snd kv)) kvs) @ ''}''"

subsection \<open>\<open>JSON.parse\<close>\<close>

text \<open>
  The parser reads the JSON grammar for the values above. A number literal with a
  fraction or an exponent, and a \<open>\u\<close> escape of a code unit from 256 on, are not
  read here (the parser fails on them); \<open>JSON.stringify\<close> writes neither for these
  values.
\<close>

definition is_ws :: "char \<Rightarrow> bool" where
  "is_ws c = (c = CHR '' '' \<or> c = CHR 0x09 \<or> c = CHR 0x0A \<or> c = CHR 0x0D)"

definition skip_ws :: "string \<Rightarrow> string" where
  "skip_ws = dropWhile is_ws"

definition is_digit :: "char \<Rightarrow> bool" where
  "is_digit c = (48 \<le> (of_char c :: nat) \<and> (of_char c :: nat) \<le> 57)"

definition digits_value :: "string \<Rightarrow> nat" where
  "digits_value ds = foldl (\<lambda>a c. 10 * a + (of_char c - 48)) 0 ds"

definition hex_value :: "char \<Rightarrow> nat option" where
  "hex_value c =
     (let k = (of_char c :: nat) in
      if 48 \<le> k \<and> k \<le> 57 then Some (k - 48)
      else if 97 \<le> k \<and> k \<le> 102 then Some (k - 87)
      else if 65 \<le> k \<and> k \<le> 70 then Some (k - 55)
      else None)"

definition unescape :: "char \<Rightarrow> char option" where
  "unescape e =
     (if e = CHR ''b'' then Some (CHR 0x08)
      else if e = CHR ''t'' then Some (CHR 0x09)
      else if e = CHR ''n'' then Some (CHR 0x0A)
      else if e = CHR ''f'' then Some (CHR 0x0C)
      else if e = CHR ''r'' then Some (CHR 0x0D)
      else if e = dquote then Some dquote
      else if e = backslash then Some backslash
      else if e = CHR ''/'' then Some (CHR ''/'')
      else None)"

definition unicode_escape :: "char \<Rightarrow> char \<Rightarrow> char \<Rightarrow> char \<Rightarrow> char option" where
  "unicode_escape a b c d =
     (case (hex_value a, hex_value b, hex_value c, hex_value d) of
        (Some h3, Some h2, Some h1, Some h0) \<Rightarrow>
          (if h3 = 0 \<and> h2 = 0 then Some (char_of (16 * h1 + h0)) else None)
      | _ \<Rightarrow> None)"

text \<open>The characters of a string literal after its opening quote, up to the closing one.\<close>

fun parse_chars :: "string \<Rightarrow> (string \<times> string) option" where
  "parse_chars [] = None"
| "parse_chars (c # cs) =
     (if c = dquote then Some ([], cs)
      else if c = backslash then
        (case cs of
           [] \<Rightarrow> None
         | e # cs' \<Rightarrow>
             if e = CHR ''u'' then
               (case cs' of
                  a # b # c' # d # cs'' \<Rightarrow>
                    (case unicode_escape a b c' d of
                       None \<Rightarrow> None
                     | Some ch \<Rightarrow> map_option (apfst ((#) ch)) (parse_chars cs''))
                | _ \<Rightarrow> None)
             else
               (case unescape e of
                  None \<Rightarrow> None
                | Some ch \<Rightarrow> map_option (apfst ((#) ch)) (parse_chars cs')))
      else if (of_char c :: nat) < 32 then None
      else map_option (apfst ((#) c)) (parse_chars cs))"

definition starts_fraction :: "string \<Rightarrow> bool" where
  "starts_fraction r = (case r of [] \<Rightarrow> False | c # _ \<Rightarrow> c = CHR ''.'' \<or> c = CHR ''e'' \<or> c = CHR ''E'')"

definition parse_number :: "string \<Rightarrow> (json \<times> string) option" where
  "parse_number s =
     (let neg = (case s of [] \<Rightarrow> False | c # _ \<Rightarrow> c = CHR ''-'');
          s1 = (if neg then tl s else s);
          ds = takeWhile is_digit s1;
          r = dropWhile is_digit s1
      in if ds = [] \<or> (1 < length ds \<and> hd ds = CHR ''0'') \<or> starts_fraction r then None
         else Some (JNum (Finite (if neg then - int (digits_value ds) else int (digits_value ds))), r))"

text \<open>A later member with a key already present replaces the value and keeps the
  key's place, as property assignment does.\<close>

fun put :: "string \<Rightarrow> json \<Rightarrow> (string \<times> json) list \<Rightarrow> (string \<times> json) list" where
  "put k v [] = [(k, v)]"
| "put k v ((k', v') # kvs) = (if k = k' then (k, v) # kvs else (k', v') # put k v kvs)"

definition object_of :: "(string \<times> json) list \<Rightarrow> json" where
  "object_of members = JObj (foldl (\<lambda>acc kv. put (fst kv) (snd kv) acc) [] members)"

text \<open>
  Recursive descent. The first argument bounds the number of nested calls; a call that
  succeeds consumes a character, so the length of the text is enough
  (\<open>parse_value_length_enough\<close> below), and that is what \<open>JSON_parse\<close> passes.
\<close>

fun parse_value :: "nat \<Rightarrow> string \<Rightarrow> (json \<times> string) option"
  and parse_elements :: "nat \<Rightarrow> string \<Rightarrow> (json list \<times> string) option"
  and parse_members :: "nat \<Rightarrow> string \<Rightarrow> ((string \<times> json) list \<times> string) option"
where
  "parse_value 0 s = None"
| "parse_value (Suc n) s =
     (case skip_ws s of
        [] \<Rightarrow> None
      | c # cs \<Rightarrow>
          if c = CHR ''['' then
            (case skip_ws cs of
               [] \<Rightarrow> None
             | d # r \<Rightarrow>
                 if d = CHR '']'' then Some (JArr [], r)
                 else map_option (apfst JArr) (parse_elements n cs))
          else if c = CHR ''{'' then
            (case skip_ws cs of
               [] \<Rightarrow> None
             | d # r \<Rightarrow>
                 if d = CHR ''}'' then Some (JObj [], r)
                 else map_option (apfst object_of) (parse_members n cs))
          else if c = dquote then map_option (apfst JStr) (parse_chars cs)
          else if take 4 (c # cs) = ''null'' then Some (JNull, drop 4 (c # cs))
          else if take 4 (c # cs) = ''true'' then Some (JBool True, drop 4 (c # cs))
          else if take 5 (c # cs) = ''false'' then Some (JBool False, drop 5 (c # cs))
          else parse_number (c # cs))"
| "parse_elements 0 s = None"
| "parse_elements (Suc n) s =
     (case parse_value n s of
        None \<Rightarrow> None
      | Some (v, r) \<Rightarrow>
          (case skip_ws r of
             [] \<Rightarrow> None
           | c # r' \<Rightarrow>
               if c = CHR '','' then map_option (apfst ((#) v)) (parse_elements n r')
               else if c = CHR '']'' then Some ([v], r')
               else None))"
| "parse_members 0 s = None"
| "parse_members (Suc n) s =
     (case skip_ws s of
        [] \<Rightarrow> None
      | q # s1 \<Rightarrow>
          if q \<noteq> dquote then None
          else
            (case parse_chars s1 of
               None \<Rightarrow> None
             | Some (k, s2) \<Rightarrow>
                 (case skip_ws s2 of
                    [] \<Rightarrow> None
                  | colon # s3 \<Rightarrow>
                      if colon \<noteq> CHR '':'' then None
                      else
                        (case parse_value n s3 of
                           None \<Rightarrow> None
                         | Some (v, r) \<Rightarrow>
                             (case skip_ws r of
                                [] \<Rightarrow> None
                              | c # r' \<Rightarrow>
                                  if c = CHR '','' then map_option (apfst ((#) (k, v))) (parse_members n r')
                                  else if c = CHR ''}'' then Some ([(k, v)], r')
                                  else None)))))"

definition JSON_parse :: "string \<Rightarrow> js_error + json" where
  "JSON_parse s =
     (case parse_value (length s) s of
        None \<Rightarrow> Inl SyntaxError
      | Some (v, r) \<Rightarrow> if skip_ws r = [] then Inr v else Inl SyntaxError)"


text \<open>
  \<open>JSON.parse(JSON.stringify(v))\<close> as a function on values: the infinities come back
  as \<open>null\<close>, everything else as it was (\<open>JSON_parse_stringify\<close> below).
\<close>

fun json_clone :: "json \<Rightarrow> json" where
  "json_clone (JNum PosInfinity) = JNull"
| "json_clone (JNum NegInfinity) = JNull"
| "json_clone (JArr vs) = JArr (map json_clone vs)"
| "json_clone (JObj kvs) = JObj (map (\<lambda>kv. (fst kv, json_clone (snd kv))) kvs)"
| "json_clone v = v"

fun finite_json :: "json \<Rightarrow> bool" where
  "finite_json (JNum PosInfinity) = False"
| "finite_json (JNum NegInfinity) = False"
| "finite_json (JArr vs) = (\<forall>v \<in> set vs. finite_json v)"
| "finite_json (JObj kvs) = (\<forall>kv \<in> set kvs. finite_json (snd kv))"
| "finite_json _ = True"

text \<open>What may follow a value inside a text, and how a value's text begins.\<close>

definition follow :: "string \<Rightarrow> bool" where
  "follow r = (case r of [] \<Rightarrow> True | c # _ \<Rightarrow> c = CHR '','' \<or> c = CHR '']'' \<or> c = CHR ''}'')"

definition starts_value :: "string \<Rightarrow> bool" where
  "starts_value s = (case s of [] \<Rightarrow> False | c # _ \<Rightarrow> \<not> is_ws c \<and> c \<noteq> CHR '']'' \<and> c \<noteq> CHR ''}'')"

abbreviation member_text :: "string \<times> json \<Rightarrow> string" where
  "member_text kv \<equiv> quote (fst kv) @ CHR '':'' # JSON_stringify (snd kv)"

subsection \<open>The conversions the handlers rely on\<close>

text \<open>\<open>!v\<close> is \<open>\<not> truthy v\<close>; a field the body lacks is \<open>undefined\<close>, here \<open>None\<close>.\<close>

fun truthy :: "json option \<Rightarrow> bool" where
  "truthy None = False"
| "truthy (Some JNull) = False"
| "truthy (Some (JBool b)) = b"
| "truthy (Some (JNum x)) = (x \<noteq> Finite 0)"
| "truthy (Some (JStr s)) = (s \<noteq> [])"
| "truthy (Some (JArr vs)) = True"
| "truthy (Some (JObj kvs)) = True"

fun isArray :: "json option \<Rightarrow> bool" where
  "isArray (Some (JArr vs)) = True"
| "isArray _ = False"

text \<open>\<open>items.length\<close>, read only of an array.\<close>

fun array_length :: "json option \<Rightarrow> nat" where
  "array_length (Some (JArr vs)) = length vs"
| "array_length _ = 0"

text \<open>The same for a field that is a string when present.\<close>

fun truthy_string :: "string option \<Rightarrow> bool" where
  "truthy_string None = False"
| "truthy_string (Some s) = (s \<noteq> [])"

text \<open>\<open>x || d\<close> for such a field, and for a TEXT column that may hold NULL.\<close>

fun or_string :: "string option \<Rightarrow> string \<Rightarrow> string" where
  "or_string None d = d"
| "or_string (Some s) d = (if s = [] then d else s)"

text \<open>
  \<open>ToString\<close>, which \<open>String.prototype.concat\<close> applies to its argument. An array is
  its elements joined by commas, \<open>null\<close> elements as the empty string; an object is
  \<open>[object Object]\<close>, unless a property \<open>toString\<close> of its own hides the inherited
  method, and then the conversion throws.
\<close>

fun js_to_string :: "json \<Rightarrow> js_error + string"
  and js_join :: "json list \<Rightarrow> js_error + string"
where
  "js_to_string JNull = Inr ''null''"
| "js_to_string (JBool b) = Inr (if b then ''true'' else ''false'')"
| "js_to_string (JNum (Finite i)) = Inr (int_text i)"
| "js_to_string (JNum PosInfinity) = Inr ''Infinity''"
| "js_to_string (JNum NegInfinity) = Inr ''-Infinity''"
| "js_to_string (JStr s) = Inr s"
| "js_to_string (JArr vs) = js_join vs"
| "js_to_string (JObj kvs) =
     (if ''toString'' \<in> set (map fst kvs) then Inl TypeError else Inr ''[object Object]'')"
| "js_join [] = Inr []"
| "js_join (v # vs) =
     (case (if v = JNull then Inr [] else js_to_string v) of
        Inl e \<Rightarrow> Inl e
      | Inr s \<Rightarrow>
          (if vs = [] then Inr s
           else (case js_join vs of Inl e \<Rightarrow> Inl e | Inr t \<Rightarrow> Inr (s @ CHR '','' # t))))"

text \<open>
  \<open>existingItems.concat(items)\<close>, \<open>items\<close> being an array: on an array the elements are
  appended, on a string the argument's text is; \<open>null\<close>, a number, a boolean or an
  object has no method \<open>concat\<close>.
\<close>

fun js_concat :: "json \<Rightarrow> json list \<Rightarrow> js_error + json" where
  "js_concat (JArr xs) ys = Inr (JArr (xs @ ys))"
| "js_concat (JStr s) ys = (case js_join ys of Inl e \<Rightarrow> Inl e | Inr t \<Rightarrow> Inr (JStr (s @ t)))"
| "js_concat _ ys = Inl TypeError"

section \<open>The orders table\<close>

text \<open>
  \<^verbatim>\<open>CREATE TABLE IF NOT EXISTS orders (
    id INTEGER PRIMARY KEY AUTOINCREMENT,
    table_no TEXT, items_json TEXT, special_requests TEXT, status TEXT DEFAULT 'placed',
    created_at DATETIME DEFAULT CURRENT_TIMESTAMP, archived INTEGER DEFAULT 0)\<close>

  Column \<open>id\<close> is \<open>rowid\<close> here. \<open>created_at\<close> is \<open>CURRENT_TIMESTAMP\<close>, a text
  \<open>YYYY-MM-DD HH:MM:SS\<close> ordered as the time it denotes: the second of the insertion.
  The two columns the handlers read through \<open>|| ...\<close> may hold NULL (\<open>None\<close>).
  The table is the list of its rows in rowid order, with the largest rowid ever used
  (\<open>sqlite_sequence\<close>).
\<close>

record order_row =
  rowid :: int
  table_no :: string
  items_json :: "string option"
  special_requests :: "string option"
  status :: string
  created_at :: nat
  archived :: int

record db =
  orders :: "order_row list"
  sequence :: int

definition empty_db :: db where
  "empty_db = \<lparr>orders = [], sequence = 0\<rparr>"

text \<open>The primary key is unique and never above the recorded sequence.\<close>

definition valid_db :: "db \<Rightarrow> bool" where
  "valid_db d = (distinct (map rowid (orders d)) \<and> (\<forall>r \<in> set (orders d). rowid r \<le> sequence d))"

subsection \<open>The statements\<close>

text \<open>AUTOINCREMENT: one more than the largest rowid that ever was in the table.\<close>

definition next_rowid :: "db \<Rightarrow> int" where
  "next_rowid d = foldr max (map rowid (orders d)) (sequence d) + 1"

text \<open>\<^verbatim>\<open>INSERT INTO orders (table_no, items_json, special_requests, status) VALUES (?,?,?,?)\<close>,
  with \<open>lastID\<close>.\<close>

definition insert_order :: "db \<Rightarrow> nat \<Rightarrow> string \<Rightarrow> string \<Rightarrow> string \<Rightarrow> string \<Rightarrow> db \<times> int" where
  "insert_order d now p_table_no p_items_json p_special_requests p_status =
     (let lastID = next_rowid d in
      (\<lparr>orders = orders d @
          [\<lparr>rowid = lastID, table_no = p_table_no, items_json = Some p_items_json,
            special_requests = Some p_special_requests, status = p_status,
            created_at = now, archived = 0\<rparr>],
        sequence = lastID\<rparr>, lastID))"

text \<open>\<^verbatim>\<open>SELECT * FROM orders WHERE id = ?\<close> through \<open>db.get\<close>: the row, or \<open>undefined\<close>.
  The parameter is the route segment; SQLite compares it with the integer column as
  the integer it denotes, and a segment that denotes none matches no row.\<close>

definition select_by_id :: "db \<Rightarrow> int \<Rightarrow> order_row option" where
  "select_by_id d p_id = find (\<lambda>r. rowid r = p_id) (orders d)"

text \<open>\<^verbatim>\<open>ORDER BY created_at DESC\<close>. SQL leaves the order of rows with equal keys open;
  SQLite's sorter keeps them in the order of the scan, which is rowid order.\<close>

definition order_by_created_at_desc :: "order_row list \<Rightarrow> order_row list" where
  "order_by_created_at_desc rows = sort_key (\<lambda>r. - int (created_at r)) rows"

text \<open>\<^verbatim>\<open>SELECT * FROM orders WHERE table_no = ? AND archived = 0 ORDER BY created_at DESC LIMIT 1\<close>\<close>

definition select_latest_active :: "db \<Rightarrow> string \<Rightarrow> order_row option" where
  "select_latest_active d p_table_no =
     (case order_by_created_at_desc (filter (\<lambda>r. table_no r = p_table_no \<and> archived r = 0) (orders d)) of
        [] \<Rightarrow> None
      | r # _ \<Rightarrow> Some r)"

text \<open>\<^verbatim>\<open>SELECT * FROM orders WHERE archived = 0 ORDER BY created_at DESC\<close>\<close>

definition select_active :: "db \<Rightarrow> order_row list" where
  "select_active d = order_by_created_at_desc (filter (\<lambda>r. archived r = 0) (orders d))"

text \<open>\<^verbatim>\<open>SELECT * FROM orders WHERE status = ? AND archived = 0 ORDER BY created_at DESC\<close>\<close>

definition select_active_with_status :: "db \<Rightarrow> string \<Rightarrow> order_row list" where
  "select_active_with_status d p_status =
     order_by_created_at_desc (filter (\<lambda>r. status r = p_status \<and> archived r = 0) (orders d))"

text \<open>\<^verbatim>\<open>UPDATE orders SET items_json = ?, special_requests = ?, status = ? WHERE id = ?\<close>\<close>

definition update_items :: "db \<Rightarrow> string \<Rightarrow> string \<Rightarrow> string \<Rightarrow> int \<Rightarrow> db" where
  "update_items d p_items_json p_special_requests p_status p_id =
     d\<lparr>orders := map (\<lambda>r. if rowid r = p_id
                            then r\<lparr>items_json := Some p_items_json,
                                   special_requests := Some p_special_requests,
                                   status := p_status\<rparr>
                            else r) (orders d)\<rparr>"

text \<open>
  \<^verbatim>\<open>UPDATE orders SET status = ?, archived = (CASE WHEN ? = "archived" THEN 1 ELSE archived END) WHERE id = ?\<close>

  SQLite reads a token in double quotes as an identifier wherever one resolves, and
  \<open>archived\<close> is a column of \<open>orders\<close>: the \<open>WHEN\<close> compares the second parameter, a
  TEXT, with the row's INTEGER column \<open>archived\<close>. The parameter takes NUMERIC
  affinity for the comparison, which turns the text of an integer into that integer
  and leaves other text as it is (text that denotes a number in another way, with a
  fraction, an exponent or spaces around it, is converted by SQLite too and does not
  reach this statement: the handler lets only the five status words through). Values
  of different storage classes are not equal.
\<close>

datatype sql_value = SqlInteger int | SqlText string

definition integer_literal :: "string \<Rightarrow> int option" where
  "integer_literal s =
     (let neg = (case s of [] \<Rightarrow> False | c # _ \<Rightarrow> c = CHR ''-'');
          ds = (case s of [] \<Rightarrow> [] | c # cs \<Rightarrow> if c = CHR ''-'' \<or> c = CHR ''+'' then cs else s)
      in if ds = [] \<or> \<not> list_all is_digit ds then None
         else Some (if neg then - int (digits_value ds) else int (digits_value ds)))"

fun numeric_affinity :: "sql_value \<Rightarrow> sql_value" where
  "numeric_affinity (SqlText s) = (case integer_literal s of None \<Rightarrow> SqlText s | Some i \<Rightarrow> SqlInteger i)"
| "numeric_affinity v = v"

fun sql_equal :: "sql_value \<Rightarrow> sql_value \<Rightarrow> bool" where
  "sql_equal (SqlInteger a) (SqlInteger b) = (a = b)"
| "sql_equal (SqlText a) (SqlText b) = (a = b)"
| "sql_equal _ _ = False"

definition update_status :: "db \<Rightarrow> string \<Rightarrow> string \<Rightarrow> int \<Rightarrow> db" where
  "update_status d p1 p2 p_id =
     d\<lparr>orders := map (\<lambda>r. if rowid r = p_id
                            then r\<lparr>status := p1,
                                   archived := (if sql_equal (numeric_affinity (SqlText p2)) (SqlInteger (archived r))
                                                then 1 else archived r)\<rparr>
                            else r) (orders d)\<rparr>"

text \<open>\<^verbatim>\<open>UPDATE orders SET status = ?, archived = 1 WHERE id = ?\<close>\<close>

definition update_billed :: "db \<Rightarrow> string \<Rightarrow> int \<Rightarrow> db" where
  "update_billed d p_status p_id =
     d\<lparr>orders := map (\<lambda>r. if rowid r = p_id then r\<lparr>status := p_status, archived := 1\<rparr> else r) (orders d)\<rparr>"


section \<open>The order handlers\<close>

text \<open>
  A handler is run on the table and the request; it gives the table it leaves and what
  it did, in order: \<open>Written\<close> when the awaited \<open>runAsync\<close> of its INSERT or UPDATE has
  resolved, \<open>Emit\<close> for \<open>io.emit(name, payload)\<close>, \<open>Send\<close> for
  \<open>res.status(code).json(body)\<close> (code 200 for plain \<open>res.json\<close>), \<open>Throw\<close> when an
  exception ends the handler (its promise rejects; nothing is sent).

  \<open>table_no\<close>, \<open>special_requests\<close> and the query's \<open>status\<close> are strings when present,
  as the API documents them; \<open>items\<close> and the body's \<open>status\<close> are any JSON value.
  An order as the handlers send it is the row together with \<open>items\<close>.
\<close>

record order =
  row :: order_row
  items :: json

datatype reply =
    Error string
  | OkId int
  | OkOrder order
  | OkTrue
  | Rows "order list"

datatype effect =
    Written
  | Emit string order
  | Send nat reply
  | Throw js_error

text \<open>\<^verbatim>\<open>rows.map(r => ({...r, items: JSON.parse(r.items_json || '[]')}))\<close>\<close>

fun expand :: "order_row list \<Rightarrow> js_error + order list" where
  "expand [] = Inr []"
| "expand (r # rs) =
     (case JSON_parse (or_string (items_json r) ''[]'') of
        Inl e \<Rightarrow> Inl e
      | Inr v \<Rightarrow> (case expand rs of Inl e \<Rightarrow> Inl e | Inr os \<Rightarrow> Inr (\<lparr>row = r, items = v\<rparr> # os)))"

text \<open>\<^verbatim>\<open>app.get('/api/orders')\<close>\<close>

definition listActive :: "db \<Rightarrow> string option \<Rightarrow> db \<times> effect list" where
  "listActive d p_status =
     (let rows = (case p_status of
                    None \<Rightarrow> select_active d
                  | Some s \<Rightarrow> if s \<noteq> [] then select_active_with_status d s else select_active d)
      in case expand rows of
           Inl e \<Rightarrow> (d, [Throw e])
         | Inr os \<Rightarrow> (d, [Send 200 (Rows os)]))"

text \<open>\<^verbatim>\<open>app.post('/api/orders')\<close>; \<open>now\<close> is the clock's second at the INSERT. The guard
  leaves the last branch of the \<open>case\<close> without inputs.\<close>

definition create :: "db \<Rightarrow> nat \<Rightarrow> string option \<Rightarrow> json option \<Rightarrow> string option \<Rightarrow> db \<times> effect list" where
  "create d now p_table_no p_items p_special_requests =
     (if \<not> truthy_string p_table_no \<or> \<not> truthy p_items \<or> \<not> isArray p_items
      then (d, [Send 400 (Error ''table_no and items[] required'')])
      else
        (case (p_table_no, p_items) of
           (Some t, Some its) \<Rightarrow>
             (let (d', lastID) = insert_order d now t (JSON_stringify its)
                                   (or_string p_special_requests []) ''placed''
              in case select_by_id d' lastID of
                   None \<Rightarrow> (d', [Written, Throw TypeError])
                 | Some newOrder \<Rightarrow>
                     (d', [Written,
                           Emit ''order:placed'' \<lparr>row = newOrder, items = its\<rparr>,
                           Send 200 (OkId lastID)]))
         | _ \<Rightarrow> (d, [Send 400 (Error ''table_no and items[] required'')])))"

text \<open>\<^verbatim>\<open>(existing.special_requests || '') + (special_requests ? ('; ' + special_requests) : '')\<close>\<close>

definition updatedRequests :: "order_row \<Rightarrow> string option \<Rightarrow> string" where
  "updatedRequests existing p_special_requests =
     or_string (special_requests existing) [] @
       (case p_special_requests of None \<Rightarrow> [] | Some s \<Rightarrow> if s \<noteq> [] then ''; '' @ s else [])"

text \<open>\<^verbatim>\<open>app.post('/api/orders/:table_no/add-items')\<close>. Here too the guard leaves the last
  branch without inputs.\<close>

definition appendItems :: "db \<Rightarrow> string \<Rightarrow> json option \<Rightarrow> string option \<Rightarrow> db \<times> effect list" where
  "appendItems d p_table_no p_items p_special_requests =
     (if \<not> truthy p_items \<or> \<not> isArray p_items \<or> array_length p_items = 0
      then (d, [Send 400 (Error ''items[] required'')])
      else
        (case p_items of
           Some (JArr its) \<Rightarrow>
             (case select_latest_active d p_table_no of
                None \<Rightarrow> (d, [Send 404 (Error ''no active order for this table'')])
              | Some existing \<Rightarrow>
                  (case JSON_parse (or_string (items_json existing) ''[]'') of
                     Inl e \<Rightarrow> (d, [Throw e])
                   | Inr existingItems \<Rightarrow>
                       (case js_concat existingItems its of
                          Inl e \<Rightarrow> (d, [Throw e])
                        | Inr newItems \<Rightarrow>
                            (let d' = update_items d (JSON_stringify newItems)
                                        (updatedRequests existing p_special_requests)
                                        ''placed'' (rowid existing)
                             in case select_by_id d' (rowid existing) of
                                  None \<Rightarrow> (d', [Written, Throw TypeError])
                                | Some updatedOrder \<Rightarrow>
                                    (case JSON_parse (or_string (items_json updatedOrder) ''[]'') of
                                       Inl e \<Rightarrow> (d', [Written, Throw e])
                                     | Inr v \<Rightarrow>
                                         (d', [Written,
                                               Emit ''order:items-added'' \<lparr>row = updatedOrder, items = v\<rparr>,
                                               Send 200 (OkOrder \<lparr>row = updatedOrder, items = v\<rparr>)]))))))
         | _ \<Rightarrow> (d, [Send 400 (Error ''items[] required'')])))"

text \<open>What the two status handlers do after their UPDATE: read the row back, attach
  \<open>items\<close>, emit, answer \<open>{ok:true}\<close>. Assigning \<open>items\<close> to \<open>undefined\<close> throws.\<close>

definition emit_updated :: "db \<Rightarrow> int \<Rightarrow> string \<Rightarrow> db \<times> effect list" where
  "emit_updated d' p_id name =
     (case select_by_id d' p_id of
        None \<Rightarrow> (d', [Written, Throw TypeError])
      | Some updated \<Rightarrow>
          (case JSON_parse (or_string (items_json updated) ''[]'') of
             Inl e \<Rightarrow> (d', [Written, Throw e])
           | Inr v \<Rightarrow> (d', [Written, Emit name \<lparr>row = updated, items = v\<rparr>, Send 200 OkTrue])))"

definition statuses :: "string list" where
  "statuses = [''placed'', ''preparing'', ''ready'', ''billed'', ''archived'']"

text \<open>\<^verbatim>\<open>app.post('/api/orders/:id/status')\<close>; \<open>includes\<close> finds only a string.\<close>

definition setStatus :: "db \<Rightarrow> int \<Rightarrow> json option \<Rightarrow> db \<times> effect list" where
  "setStatus d p_id p_status =
     (case p_status of
        Some (JStr s) \<Rightarrow>
          if s \<notin> set statuses then (d, [Send 400 (Error ''invalid status'')])
          else emit_updated (update_status d s s p_id) p_id ''order:status-changed''
      | _ \<Rightarrow> (d, [Send 400 (Error ''invalid status'')]))"

text \<open>\<^verbatim>\<open>app.post('/api/orders/:id/bill')\<close>\<close>

definition bill :: "db \<Rightarrow> int \<Rightarrow> db \<times> effect list" where
  "bill d p_id = emit_updated (update_billed d ''billed'' p_id) p_id ''order:billed''"

text \<open>The requests on orders, and the router.\<close>

datatype request =
    ListActive "string option"
  | Create nat "string option" "json option" "string option"
  | AppendItems string "json option" "string option"
  | SetStatus int "json option"
  | Bill int

fun handle :: "db \<Rightarrow> request \<Rightarrow> db \<times> effect list" where
  "handle d (ListActive p_status) = listActive d p_status"
| "handle d (Create now p_table_no p_items p_special_requests) = create d now p_table_no p_items p_special_requests"
| "handle d (AppendItems p_table_no p_items p_special_requests) = appendItems d p_table_no p_items p_special_requests"
| "handle d (SetStatus p_id p_status) = setStatus d p_id p_status"
| "handle d (Bill p_id) = bill d p_id"




section \<open>The tables the handlers produce\<close>

text \<open>
  What the handlers keep true of the table: the ids are unique and below the recorded
  sequence, and \<open>items_json\<close> of every row is the text \<open>JSON.stringify\<close> writes for an
  array. A request carries JavaScript values (\<open>wf_json\<close>). \<open>reachable\<close> are the tables
  the server gets to from the empty one.
\<close>

definition stored_array :: "order_row \<Rightarrow> bool" where
  "stored_array r = (\<exists>ys. items_json r = Some (JSON_stringify (JArr ys)) \<and> wf_json (JArr ys))"

definition consistent :: "db \<Rightarrow> bool" where
  "consistent d = (valid_db d \<and> (\<forall>r \<in> set (orders d). stored_array r))"

fun wf_request :: "request \<Rightarrow> bool" where
  "wf_request (Create now p_table_no p_items p_special_requests) = (\<forall>v. p_items = Some v \<longrightarrow> wf_json v)"
| "wf_request (AppendItems p_table_no p_items p_special_requests) = (\<forall>v. p_items = Some v \<longrightarrow> wf_json v)"
| "wf_request _ = True"

inductive reachable :: "db \<Rightarrow> bool" where
  start: "reachable empty_db"
| step: "reachable d \<Longrightarrow> wf_request req \<Longrightarrow> reachable (fst (handle d req))"

section \<open>Example data\<close>

definition sku :: "string \<Rightarrow> json" where
  "sku s = JObj [(''sku'', JStr s)]"

definition one_order :: db where
  "one_order =
     \<lparr>orders = [\<lparr>rowid = 1, table_no = ''T1'', items_json = Some ''[]'', special_requests = Some [],
                  status = ''placed'', created_at = 5, archived = 0\<rparr>],
      sequence = 1\<rparr>"

definition example_T9 :: db where
  "example_T9 = fst (create empty_db 0 (Some ''T9'') (Some (JArr [sku ''A''])) (Some ''no onions''))"

text \<open>Two orders for one table, placed within one second, and a second apart.\<close>

definition same_second :: db where
  "same_second =
     fst (create (fst (create empty_db 7 (Some ''T5'') (Some (JArr [sku ''A''])) None))
            7 (Some ''T5'') (Some (JArr [sku ''B''])) None)"

definition two_orders :: db where
  "two_orders =
     fst (create (fst (create empty_db 7 (Some ''T5'') (Some (JArr [sku ''A''])) None))
            8 (Some ''T5'') (Some (JArr [sku ''B''])) None)"

section \<open>Writing and reading back\<close>


lemma of_char_digit_char: "d < 10 \<Longrightarrow> (of_char (digit_char d) :: nat) = 48 + d"
  by (simp add: digit_char_def)

lemma is_digit_digit_char: "d < 10 \<Longrightarrow> is_digit (digit_char d)"
  by (simp add: is_digit_def of_char_digit_char)

lemma nat_digits_nonempty: "nat_digits n \<noteq> []"
  by (subst nat_digits.simps) simp

lemma nat_digits_all_digits: "c \<in> set (nat_digits n) \<Longrightarrow> is_digit c"
proof (induction n arbitrary: c rule: nat_digits.induct)
  case (1 n)
  show ?case
  proof (cases "n < 10")
    case True
    with "1.prems" show ?thesis
      by (subst (asm) nat_digits.simps) (simp add: is_digit_digit_char)
  next
    case False
    with "1.prems" have "c \<in> set (nat_digits (n div 10)) \<or> c = digit_char (n mod 10)"
      by (subst (asm) nat_digits.simps) auto
    with False "1.IH" show ?thesis
      by (auto simp: is_digit_digit_char)
  qed
qed

lemma digits_value_snoc: "digits_value (ds @ [c]) = 10 * digits_value ds + (of_char c - 48)"
  by (simp add: digits_value_def)

lemma digits_value_nat_digits: "digits_value (nat_digits n) = n"
proof (induction n rule: nat_digits.induct)
  case (1 n)
  show ?case
  proof (cases "n < 10")
    case True
    then show ?thesis
      by (subst nat_digits.simps) (simp add: digits_value_def of_char_digit_char)
  next
    case False
    with "1.IH" show ?thesis
      by (subst nat_digits.simps) (simp add: digits_value_snoc of_char_digit_char)
  qed
qed

lemma hd_nat_digits: "0 < n \<Longrightarrow> hd (nat_digits n) \<noteq> CHR ''0''"
proof (induction n rule: nat_digits.induct)
  case (1 n)
  show ?case
  proof (cases "n < 10")
    case True
    have "(of_char (digit_char n) :: nat) \<noteq> of_char (CHR ''0'')"
      using True "1.prems" by (simp add: of_char_digit_char)
    then have "digit_char n \<noteq> CHR ''0''" by auto
    with True show ?thesis
      by (subst nat_digits.simps) simp
  next
    case False
    then have "0 < n div 10" by simp
    with False "1.IH" show ?thesis
      by (subst nat_digits.simps) (simp add: nat_digits_nonempty)
  qed
qed

lemma length_nat_digits: "1 < length (nat_digits n) \<Longrightarrow> 0 < n"
  by (cases "n = 0") (simp_all add: nat_digits.simps)


lemma follow_not_digit: "follow r \<Longrightarrow> r = [] \<or> \<not> is_digit (hd r)"
  by (auto simp: follow_def is_digit_def split: list.splits)

lemma follow_not_fraction: "follow r \<Longrightarrow> \<not> starts_fraction r"
  by (auto simp: follow_def starts_fraction_def split: list.splits)

lemma takeWhile_digits: "follow r \<Longrightarrow> takeWhile is_digit (nat_digits n @ r) = nat_digits n"
  using follow_not_digit [of r]
  by (cases r) (auto simp: takeWhile_append2 nat_digits_all_digits intro!: takeWhile_eq_all_conv [THEN iffD2])

lemma dropWhile_digits: "follow r \<Longrightarrow> dropWhile is_digit (nat_digits n @ r) = r"
  using follow_not_digit [of r]
  by (cases r) (auto simp: dropWhile_append2 nat_digits_all_digits)

lemma hd_nat_digits_not_minus: "hd (nat_digits n) \<noteq> CHR ''-''"
proof -
  have "hd (nat_digits n) \<in> set (nat_digits n)"
    by (simp add: nat_digits_nonempty)
  then have "is_digit (hd (nat_digits n))"
    by (rule nat_digits_all_digits)
  then show ?thesis
    by (auto simp: is_digit_def)
qed

lemma parse_number_nat:
  assumes "follow r"
  shows "parse_number (nat_digits n @ r) = Some (JNum (Finite (int n)), r)"
proof -
  obtain c cs where cs: "nat_digits n = c # cs"
    using nat_digits_nonempty [of n] by (cases "nat_digits n") auto
  have c: "c \<noteq> CHR ''-''"
    using hd_nat_digits_not_minus [of n] cs by simp
  have lead: "\<not> (1 < length (nat_digits n) \<and> hd (nat_digits n) = CHR ''0'')"
    using length_nat_digits [of n] hd_nat_digits [of n] by blast
  have tw: "takeWhile is_digit (c # cs @ r) = nat_digits n"
    using takeWhile_digits [OF assms, of n] cs by simp
  have dw: "dropWhile is_digit (c # cs @ r) = r"
    using dropWhile_digits [OF assms, of n] cs by simp
  have "parse_number (c # cs @ r) = Some (JNum (Finite (int n)), r)"
    unfolding parse_number_def Let_def
    using c lead follow_not_fraction [OF assms] nat_digits_nonempty [of n]
    by (simp only: tw dw list.case if_False tl_def digits_value_nat_digits) simp
  then show ?thesis by (simp add: cs)
qed

lemma parse_number_neg:
  assumes "follow r"
  shows "parse_number (CHR ''-'' # nat_digits n @ r) = Some (JNum (Finite (- int n)), r)"
proof -
  have lead: "\<not> (1 < length (nat_digits n) \<and> hd (nat_digits n) = CHR ''0'')"
    using length_nat_digits [of n] hd_nat_digits [of n] by blast
  show ?thesis
    unfolding parse_number_def Let_def
    using lead follow_not_fraction [OF assms] nat_digits_nonempty [of n]
    by (simp add: takeWhile_digits [OF assms] dropWhile_digits [OF assms] digits_value_nat_digits)
qed

lemma parse_number_int_text:
  "follow r \<Longrightarrow> parse_number (int_text i @ r) = Some (JNum (Finite i), r)"
  by (simp add: int_text_def parse_number_nat parse_number_neg)


lemma hex_value_hex_char: "d < 16 \<Longrightarrow> hex_value (hex_char d) = Some d"
  by (auto simp: hex_value_def hex_char_def Let_def)

lemma unicode_escape_control:
  assumes "(of_char c :: nat) < 32"
  shows "unicode_escape (CHR ''0'') (CHR ''0'') (hex_char (of_char c div 16)) (hex_char (of_char c mod 16)) = Some c"
proof -
  have z: "hex_value (CHR ''0'') = Some 0"
    by (simp add: hex_value_def)
  have h1: "hex_value (hex_char (of_char c div 16)) = Some (of_char c div 16)"
    using assms by (intro hex_value_hex_char) simp
  have h0: "hex_value (hex_char (of_char c mod 16)) = Some (of_char c mod 16)"
    by (intro hex_value_hex_char) simp
  have "char_of (16 * ((of_char c :: nat) div 16) + of_char c mod 16) = c"
    by simp
  then show ?thesis
    by (simp add: unicode_escape_def z h1 h0)
qed

lemma parse_chars_escape:
  "parse_chars (escape c @ rest) = map_option (apfst ((#) c)) (parse_chars rest)"
proof -
  consider (two) "c = CHR 0x08 \<or> c = CHR 0x09 \<or> c = CHR 0x0A \<or> c = CHR 0x0C \<or> c = CHR 0x0D \<or> c = dquote \<or> c = backslash"
    | (ctl) "\<not> (c = CHR 0x08 \<or> c = CHR 0x09 \<or> c = CHR 0x0A \<or> c = CHR 0x0C \<or> c = CHR 0x0D \<or> c = dquote \<or> c = backslash)" "(of_char c :: nat) < 32"
    | (plain) "\<not> (c = CHR 0x08 \<or> c = CHR 0x09 \<or> c = CHR 0x0A \<or> c = CHR 0x0C \<or> c = CHR 0x0D \<or> c = dquote \<or> c = backslash)" "\<not> (of_char c :: nat) < 32"
    by blast
  then show ?thesis
  proof cases
    case two
    then show ?thesis
      by (auto simp: escape_def unescape_def)
  next
    case ctl
    then show ?thesis
      by (simp add: escape_def unicode_escape_control)
  next
    case plain
    then show ?thesis
      by (simp add: escape_def)
  qed
qed

lemma parse_chars_escaped:
  "parse_chars (concat (map escape s) @ dquote # r) = Some (s, r)"
  by (induction s) (simp_all add: parse_chars_escape)

lemma parse_chars_quote:
  "parse_chars (tl (quote s) @ r) = Some (s, r)"
  by (simp add: quote_def parse_chars_escaped)


lemma starts_value_digit: "is_digit c \<Longrightarrow> starts_value (c # cs)"
  by (auto simp: starts_value_def is_digit_def is_ws_def)

lemma starts_value_nat_digits: "starts_value (nat_digits n @ r)"
proof -
  obtain c cs where cs: "nat_digits n = c # cs"
    using nat_digits_nonempty [of n] by (cases "nat_digits n") auto
  then have "is_digit c"
    using nat_digits_all_digits [of c n] by simp
  then show ?thesis
    by (simp add: cs starts_value_digit)
qed

lemma starts_value_stringify: "starts_value (JSON_stringify v @ r)"
proof (cases v)
  case (JNum x)
  then show ?thesis
    using starts_value_nat_digits
    by (cases x) (auto simp: int_text_def starts_value_def is_ws_def)
qed (auto simp: starts_value_def is_ws_def quote_def)

lemma skip_ws_starts_value: "starts_value s \<Longrightarrow> skip_ws s = s"
  by (cases s) (auto simp: starts_value_def skip_ws_def)

lemma skip_ws_follow: "follow r \<Longrightarrow> skip_ws r = r"
  by (cases r) (auto simp: follow_def skip_ws_def is_ws_def)

lemma parse_value_number:
  assumes "is_digit c \<or> c = CHR ''-''"
  shows "parse_value (Suc n) (c # cs) = parse_number (c # cs)"
proof -
  have "skip_ws (c # cs) = c # cs"
    using assms by (auto simp: skip_ws_def is_ws_def is_digit_def)
  moreover have "c \<noteq> CHR ''[''" "c \<noteq> CHR ''{''" "c \<noteq> dquote" "c \<noteq> CHR ''n''" "c \<noteq> CHR ''t''" "c \<noteq> CHR ''f''"
    using assms by (auto simp: is_digit_def)
  ultimately show ?thesis
    by simp
qed

lemma parse_value_int_text:
  assumes "follow r"
  shows "parse_value (Suc n) (int_text i @ r) = Some (JNum (Finite i), r)"
proof -
  obtain c cs where cs: "int_text i = c # cs" and c: "is_digit c \<or> c = CHR ''-''"
  proof (cases "i < 0")
    case True
    then show ?thesis
      using that by (simp add: int_text_def)
  next
    case False
    obtain d ds where "nat_digits (nat i) = d # ds"
      using nat_digits_nonempty [of "nat i"] by (cases "nat_digits (nat i)") auto
    moreover from this have "is_digit d"
      using nat_digits_all_digits [of d "nat i"] by simp
    ultimately show ?thesis
      using that False by (simp add: int_text_def)
  qed
  have "parse_value (Suc n) (c # cs @ r) = parse_number (c # cs @ r)"
    using c by (rule parse_value_number)
  then show ?thesis
    using parse_number_int_text [OF assms, of i] by (simp add: cs)
qed

lemma parse_value_quote:
  "parse_value (Suc n) (quote s @ r) = Some (JStr s, r)"
  by (simp add: quote_def skip_ws_def is_ws_def parse_chars_escaped)

lemma commas_nonempty: "xs \<noteq> [] \<Longrightarrow> commas (x # xs) = x @ CHR '','' # commas xs"
  by (cases xs) simp_all

lemma parse_elements_commas:
  assumes "\<And>v n r. v \<in> set vs \<Longrightarrow> follow r \<Longrightarrow> length (JSON_stringify v) \<le> n
             \<Longrightarrow> parse_value n (JSON_stringify v @ r) = Some (json_clone v, r)"
    and "vs \<noteq> []"
    and "length (commas (map JSON_stringify vs)) < n"
  shows "parse_elements n (commas (map JSON_stringify vs) @ CHR '']'' # r) = Some (map json_clone vs, r)"
  using assms
proof (induction vs arbitrary: n)
  case Nil
  then show ?case by simp
next
  case (Cons v vs)
  from Cons.prems(3) obtain m where n: "n = Suc m"
    by (cases n) auto
  show ?case
  proof (cases "vs = []")
    case True
    have f: "follow (CHR '']'' # r)"
      by (simp add: follow_def)
    have "parse_value m (JSON_stringify v @ CHR '']'' # r) = Some (json_clone v, CHR '']'' # r)"
      using Cons.prems(3) True n by (intro Cons.prems(1) f) simp_all
    then show ?thesis
      by (simp add: True n skip_ws_follow [OF f])
  next
    case False
    let ?rest = "commas (map JSON_stringify vs) @ CHR '']'' # r"
    have f: "follow (CHR '','' # ?rest)"
      by (simp add: follow_def)
    have len: "length (commas (map JSON_stringify (v # vs))) =
        length (JSON_stringify v) + 1 + length (commas (map JSON_stringify vs))"
      using False by (simp add: commas_nonempty)
    have "parse_value m (JSON_stringify v @ CHR '','' # ?rest) = Some (json_clone v, CHR '','' # ?rest)"
      using Cons.prems(3) n len by (intro Cons.prems(1) f) simp_all
    moreover have "parse_elements m ?rest = Some (map json_clone vs, r)"
      using Cons.prems(1,3) n len False by (intro Cons.IH) simp_all
    ultimately show ?thesis
      using False by (simp add: n commas_nonempty skip_ws_follow [OF f])
  qed
qed

lemma skip_ws_quote: "skip_ws (quote k @ s) = quote k @ s"
  by (simp add: quote_def skip_ws_def is_ws_def)

lemma parse_members_step:
  "parse_members (Suc m) (member_text kv @ s) =
     (case parse_value m (JSON_stringify (snd kv) @ s) of
        None \<Rightarrow> None
      | Some (v, r) \<Rightarrow>
          (case skip_ws r of
             [] \<Rightarrow> None
           | c # r' \<Rightarrow>
               if c = CHR '','' then map_option (apfst ((#) (fst kv, v))) (parse_members m r')
               else if c = CHR ''}'' then Some ([(fst kv, v)], r')
               else None))"
proof -
  have 1: "skip_ws (member_text kv @ s) = dquote # (concat (map escape (fst kv)) @ dquote # CHR '':'' # JSON_stringify (snd kv) @ s)"
    using skip_ws_quote [of "fst kv" "CHR '':'' # JSON_stringify (snd kv) @ s"]
    by (simp add: quote_def)
  have 2: "skip_ws (CHR '':'' # JSON_stringify (snd kv) @ s) = CHR '':'' # JSON_stringify (snd kv) @ s"
    by (simp add: skip_ws_def is_ws_def)
  show ?thesis
    by (simp only: parse_members.simps 1 list.case parse_chars_escaped option.case prod.case 2) simp
qed

lemma parse_members_commas:
  assumes "\<And>kv n r. kv \<in> set kvs \<Longrightarrow> follow r \<Longrightarrow> length (JSON_stringify (snd kv)) \<le> n
             \<Longrightarrow> parse_value n (JSON_stringify (snd kv) @ r) = Some (json_clone (snd kv), r)"
    and "kvs \<noteq> []"
    and "length (commas (map member_text kvs)) < n"
  shows "parse_members n (commas (map member_text kvs) @ CHR ''}'' # r)
           = Some (map (\<lambda>kv. (fst kv, json_clone (snd kv))) kvs, r)"
  using assms
proof (induction kvs arbitrary: n)
  case Nil
  then show ?case by simp
next
  case (Cons kv kvs)
  from Cons.prems(3) obtain m where n: "n = Suc m"
    by (cases n) auto
  show ?case
  proof (cases "kvs = []")
    case True
    have f: "follow (CHR ''}'' # r)"
      by (simp add: follow_def)
    have "parse_value m (JSON_stringify (snd kv) @ CHR ''}'' # r) = Some (json_clone (snd kv), CHR ''}'' # r)"
      using Cons.prems(3) True n by (intro Cons.prems(1) f) simp_all
    then show ?thesis
      using parse_members_step [of m kv "CHR ''}'' # r"]
      by (simp add: True n skip_ws_follow [OF f])
  next
    case False
    let ?rest = "commas (map member_text kvs) @ CHR ''}'' # r"
    have f: "follow (CHR '','' # ?rest)"
      by (simp add: follow_def)
    have len: "length (commas (map member_text (kv # kvs))) =
        length (member_text kv) + 1 + length (commas (map member_text kvs))"
      using False by (simp add: commas_nonempty)
    have "parse_value m (JSON_stringify (snd kv) @ CHR '','' # ?rest) = Some (json_clone (snd kv), CHR '','' # ?rest)"
      using Cons.prems(3) n len by (intro Cons.prems(1) f) simp_all
    moreover have "parse_members m ?rest = Some (map (\<lambda>kv. (fst kv, json_clone (snd kv))) kvs, r)"
      using Cons.prems(1,3) n len False by (intro Cons.IH) simp_all
    ultimately show ?thesis
      using False parse_members_step [of m kv "CHR '','' # ?rest"]
      by (simp add: n commas_nonempty skip_ws_follow [OF f])
  qed
qed

lemma put_fresh: "k \<notin> fst ` set kvs \<Longrightarrow> put k v kvs = kvs @ [(k, v)]"
  by (induction kvs) auto

lemma foldl_put_distinct:
  "distinct (map fst (acc @ kvs)) \<Longrightarrow> foldl (\<lambda>acc kv. put (fst kv) (snd kv) acc) acc kvs = acc @ kvs"
proof (induction kvs arbitrary: acc)
  case Nil
  then show ?case by simp
next
  case (Cons kv kvs)
  from Cons.prems have "fst kv \<notin> fst ` set acc"
    by auto
  then have "put (fst kv) (snd kv) acc = acc @ [kv]"
    by (simp add: put_fresh)
  moreover from Cons.prems have "distinct (map fst ((acc @ [kv]) @ kvs))"
    by simp
  ultimately show ?case
    using Cons.IH [of "acc @ [kv]"] by simp
qed

lemma object_of_distinct: "distinct (map fst kvs) \<Longrightarrow> object_of kvs = JObj kvs"
  using foldl_put_distinct [of "[]" kvs] by (simp add: object_of_def)


lemma stringify_nonempty: "JSON_stringify v \<noteq> []"
  using starts_value_stringify [of v "[]"] by (auto simp: starts_value_def)

lemma parse_value_stringify:
  "wf_json v \<Longrightarrow> follow r \<Longrightarrow> length (JSON_stringify v) \<le> n
     \<Longrightarrow> parse_value n (JSON_stringify v @ r) = Some (json_clone v, r)"
proof (induction v arbitrary: n r)
  case JNull
  then obtain m where "n = Suc m" by (cases n) auto
  then show ?case
    by (simp add: skip_ws_def is_ws_def)
next
  case (JBool b)
  then obtain m where "n = Suc m"
    using stringify_nonempty [of "JBool b"] by (cases n) auto
  then show ?case
    by (simp add: skip_ws_def is_ws_def)
next
  case (JNum x)
  then obtain m where n: "n = Suc m"
    using stringify_nonempty [of "JNum x"] by (cases n) auto
  show ?case
  proof (cases x)
    case (Finite i)
    then show ?thesis
      using parse_value_int_text [OF JNum.prems(2), of m i] by (simp add: n)
  qed (simp_all add: n skip_ws_def is_ws_def)
next
  case (JStr s)
  then obtain m where "n = Suc m" by (cases n) (auto simp: quote_def)
  then show ?case
    by (simp add: parse_value_quote del: parse_value.simps)
next
  case (JArr vs)
  then obtain m where n: "n = Suc m" by (cases n) auto
  show ?case
  proof (cases "vs = []")
    case True
    then show ?thesis
      by (simp add: n skip_ws_def is_ws_def)
  next
    case False
    let ?body = "commas (map JSON_stringify vs) @ CHR '']'' # r"
    have "starts_value ?body"
    proof -
      obtain v ws where "vs = v # ws" using False by (cases vs) auto
      then show ?thesis
        using starts_value_stringify [of v]
        by (cases ws) (auto simp: starts_value_def split: list.splits)
    qed
    then obtain d ds where body: "skip_ws ?body = d # ds" and d: "d \<noteq> CHR '']''"
      using skip_ws_starts_value [of ?body] by (cases ?body) (auto simp: starts_value_def)
    have "parse_elements m ?body = Some (map json_clone vs, r)"
    proof (rule parse_elements_commas [OF _ False])
      fix v n r
      assume "v \<in> set vs" "follow r" "length (JSON_stringify v) \<le> n"
      with JArr.IH [of v r n] JArr.prems(1)
      show "parse_value n (JSON_stringify v @ r) = Some (json_clone v, r)"
        by simp
    next
      show "length (commas (map JSON_stringify vs)) < m"
        using JArr.prems(3) n by simp
    qed
    then show ?thesis
      using body d by (simp add: n skip_ws_def is_ws_def)
  qed
next
  case (JObj kvs)
  then obtain m where n: "n = Suc m" by (cases n) auto
  show ?case
  proof (cases "kvs = []")
    case True
    then show ?thesis
      by (simp add: n skip_ws_def is_ws_def object_of_def)
  next
    case False
    let ?body = "commas (map member_text kvs) @ CHR ''}'' # r"
    have "\<exists>ds. ?body = dquote # ds"
    proof -
      obtain kv ws where "kvs = kv # ws" using False by (cases kvs) auto
      then show ?thesis
        by (cases ws) (auto simp: quote_def)
    qed
    then obtain ds where body: "skip_ws ?body = dquote # ds"
      by (auto simp: skip_ws_def is_ws_def)
    have "parse_members m ?body = Some (map (\<lambda>kv. (fst kv, json_clone (snd kv))) kvs, r)"
    proof (rule parse_members_commas [OF _ False])
      fix kv n r
      assume a: "kv \<in> set kvs" "follow r" "length (JSON_stringify (snd kv)) \<le> n"
      have "snd kv \<in> Basic_BNFs.snds kv"
        by (cases kv) simp
      with a show "parse_value n (JSON_stringify (snd kv) @ r) = Some (json_clone (snd kv), r)"
        using JObj.IH [of kv "snd kv" r n] JObj.prems(1) by simp
    next
      show "length (commas (map member_text kvs)) < m"
        using JObj.prems(3) n by simp
    qed
    moreover have "distinct (map fst (map (\<lambda>kv. (fst kv, json_clone (snd kv))) kvs))"
      using JObj.prems(1) by (simp add: comp_def)
    ultimately show ?thesis
      using body by (simp add: n skip_ws_def is_ws_def object_of_distinct)
  qed
qed

theorem JSON_parse_stringify:
  "wf_json v \<Longrightarrow> JSON_parse (JSON_stringify v) = Inr (json_clone v)"
  using parse_value_stringify [of v "[]" "length (JSON_stringify v)"]
  by (simp add: JSON_parse_def follow_def skip_ws_def)

lemma json_clone_finite: "finite_json v \<Longrightarrow> json_clone v = v"
proof (induction v)
  case (JNum x)
  then show ?case by (cases x) simp_all
next
  case (JArr vs)
  then show ?case by (simp add: map_idI)
next
  case (JObj kvs)
  have "map (\<lambda>kv. (fst kv, json_clone (snd kv))) kvs = kvs"
  proof (rule map_idI)
    fix kv assume kv: "kv \<in> set kvs"
    have "snd kv \<in> Basic_BNFs.snds kv"
      by (cases kv) simp
    with JObj kv show "(fst kv, json_clone (snd kv)) = kv"
      by (cases kv) auto
  qed
  then show ?case by simp
qed simp_all

lemma JSON_parse_stringify_finite:
  "wf_json v \<Longrightarrow> finite_json v \<Longrightarrow> JSON_parse (JSON_stringify v) = Inr v"
  by (simp add: JSON_parse_stringify json_clone_finite)

lemma wf_json_clone: "wf_json v \<Longrightarrow> wf_json (json_clone v)"
proof (induction v)
  case (JNum x)
  then show ?case by (cases x) simp_all
next
  case (JObj kvs)
  have "wf_json (json_clone (snd kv))" if "kv \<in> set kvs" for kv
  proof -
    have "snd kv \<in> Basic_BNFs.snds kv"
      by (cases kv) simp
    with JObj that show ?thesis
      by auto
  qed
  with JObj.prems show ?case
    by (simp add: comp_def)
qed simp_all

section \<open>The bound of the parser\<close>

lemma skip_ws_length: "length (skip_ws s) \<le> length s"
  by (simp add: skip_ws_def length_dropWhile_le)

lemma parse_chars_length: "parse_chars s = Some (k, r) \<Longrightarrow> length r < length s"
proof (induction s arbitrary: k rule: parse_chars.induct)
  case 1
  then show ?case by simp
next
  case (2 c cs)
  show ?case
  proof (cases "c = dquote")
    case True
    with "2.prems" show ?thesis by simp
  next
    case nq: False
    show ?thesis
    proof (cases "c = backslash")
      case True
      with nq "2.prems" obtain e cs' where cs: "cs = e # cs'"
        by (cases cs) auto
      show ?thesis
      proof (cases "e = CHR ''u''")
        case u: True
        with True nq cs "2.prems" obtain a b c' d' cs'' ch k' where
          *: "cs' = a # b # c' # d' # cs''" "unicode_escape a b c' d' = Some ch"
             "parse_chars cs'' = Some (k', r)"
          by (auto split: list.splits option.splits)
        with "2.IH"(1) [OF nq True cs u *(1) refl refl refl *(2), of k'] cs show ?thesis
          by simp
      next
        case False
        with True nq cs "2.prems" obtain ch k' where
          *: "unescape e = Some ch" "parse_chars cs' = Some (k', r)"
          by (auto split: option.splits)
        with "2.IH"(2) [OF nq True cs False *(1), of k'] cs show ?thesis
          by simp
      qed
    next
      case False
      with nq "2.prems" obtain k' where *: "\<not> (of_char c :: nat) < 32" "parse_chars cs = Some (k', r)"
        by (auto split: if_splits)
      with "2.IH"(3) [OF nq False *(1), of k'] show ?thesis
        by simp
    qed
  qed
qed

lemma parse_number_length: "parse_number s = Some (v, r) \<Longrightarrow> length r < length s"
proof -
  assume a: "parse_number s = Some (v, r)"
  define s1 where "s1 = (if (case s of [] \<Rightarrow> False | c # _ \<Rightarrow> c = CHR ''-'') then tl s else s)"
  from a have ds: "takeWhile is_digit s1 \<noteq> []" and r: "r = dropWhile is_digit s1"
    by (auto simp: parse_number_def Let_def s1_def split: if_splits)
  have "length (takeWhile is_digit s1) + length (dropWhile is_digit s1) = length s1"
    by (metis length_append takeWhile_dropWhile_id)
  with ds have "length (dropWhile is_digit s1) < length s1"
    by (cases "takeWhile is_digit s1") auto
  moreover have "length s1 \<le> length s"
    by (simp add: s1_def)
  ultimately show ?thesis
    using r by simp
qed


text \<open>How a successful call was made.\<close>

lemma parse_value_Suc:
  assumes "parse_value (Suc m) s = Some (v, r)"
  shows "(\<exists>cs vs. skip_ws s = CHR ''['' # cs \<and> skip_ws cs \<noteq> [] \<and> hd (skip_ws cs) \<noteq> CHR '']''
            \<and> parse_elements m cs = Some (vs, r) \<and> v = JArr vs)
       \<or> (\<exists>cs kvs. skip_ws s = CHR ''{'' # cs \<and> skip_ws cs \<noteq> [] \<and> hd (skip_ws cs) \<noteq> CHR ''}''
            \<and> parse_members m cs = Some (kvs, r) \<and> v = object_of kvs)
       \<or> (length r < length s \<and> (\<forall>n. parse_value (Suc n) s = Some (v, r)))"
proof (cases "skip_ws s")
  case Nil
  with assms show ?thesis by simp
next
  case (Cons c cs)
  have len: "length (c # cs) \<le> length s"
    using skip_ws_length [of s] Cons by simp
  show ?thesis
  proof (cases "c = CHR ''[''")
    case True
    with assms Cons obtain d r0 where d: "skip_ws cs = d # r0"
      by (cases "skip_ws cs") auto
    have "length r0 < length cs"
      using skip_ws_length [of cs] d by simp
    with True assms Cons d len show ?thesis
      by (cases "d = CHR '']''") auto
  next
    case nb: False
    show ?thesis
    proof (cases "c = CHR ''{''")
      case True
      with assms Cons obtain d r0 where d: "skip_ws cs = d # r0"
        by (cases "skip_ws cs") auto
      have "length r0 < length cs"
        using skip_ws_length [of cs] d by simp
      with True assms Cons d len show ?thesis
        by (cases "d = CHR ''}''") auto
    next
      case nc: False
      have same: "parse_value (Suc n) s = parse_value (Suc m) s" for n
        using Cons nb nc by simp
      have "length r < length (c # cs)"
      proof (cases "c = dquote")
        case True
        with assms Cons nb nc obtain k where "parse_chars cs = Some (k, r)"
          by auto
        from parse_chars_length [OF this] show ?thesis by simp
      next
        case False
        with assms Cons nb nc
        consider "r = drop 4 (c # cs)" "take 4 (c # cs) = ''null'' \<or> take 4 (c # cs) = ''true''"
          | "r = drop 5 (c # cs)" "take 5 (c # cs) = ''false''"
          | "parse_number (c # cs) = Some (v, r)"
          by (auto split: if_splits)
        then show ?thesis
        proof cases
          case 3
          from parse_number_length [OF this] show ?thesis .
        qed auto
      qed
      with len same assms show ?thesis
        by simp
    qed
  qed
qed

lemma parse_elements_Suc:
  assumes "parse_elements (Suc m) s = Some (vs, r)"
  shows "\<exists>v r1 c r'. parse_value m s = Some (v, r1) \<and> skip_ws r1 = c # r'
           \<and> (c = CHR '','' \<and> (\<exists>vs'. parse_elements m r' = Some (vs', r) \<and> vs = v # vs')
              \<or> c = CHR '']'' \<and> r = r' \<and> vs = [v])"
  using assms by (auto split: option.splits list.splits if_splits)

lemma parse_members_Suc:
  assumes "parse_members (Suc m) s = Some (kvs, r)"
  shows "\<exists>s1 k s2 s3 v r1 c r'.
           skip_ws s = dquote # s1 \<and> parse_chars s1 = Some (k, s2) \<and> skip_ws s2 = CHR '':'' # s3
           \<and> parse_value m s3 = Some (v, r1) \<and> skip_ws r1 = c # r'
           \<and> (c = CHR '','' \<and> (\<exists>kvs'. parse_members m r' = Some (kvs', r) \<and> kvs = (k, v) # kvs')
              \<or> c = CHR ''}'' \<and> r = r' \<and> kvs = [(k, v)])"
  using assms by (auto split: option.splits list.splits if_splits)


text \<open>Every successful call consumes a character.\<close>

lemma parse_lengths:
  "(\<forall>s v r. parse_value m s = Some (v, r) \<longrightarrow> length r < length s)
   \<and> (\<forall>s vs r. parse_elements m s = Some (vs, r) \<longrightarrow> length r < length s)
   \<and> (\<forall>s kvs r. parse_members m s = Some (kvs, r) \<longrightarrow> length r < length s)"
proof (induction m)
  case 0
  show ?case by simp
next
  case (Suc m)
  have v: "length r < length s" if "parse_value (Suc m) s = Some (v, r)" for s v r
    using parse_value_Suc [OF that]
  proof (elim disjE exE conjE)
    fix cs vs
    assume "skip_ws s = CHR ''['' # cs" "parse_elements m cs = Some (vs, r)"
    with Suc skip_ws_length [of s] show ?thesis
      by fastforce
  next
    fix cs kvs
    assume "skip_ws s = CHR ''{'' # cs" "parse_members m cs = Some (kvs, r)"
    with Suc skip_ws_length [of s] show ?thesis
      by fastforce
  qed
  have e: "length r < length s" if "parse_elements (Suc m) s = Some (vs, r)" for s vs r
  proof -
    from parse_elements_Suc [OF that] obtain v r1 c r' where
      *: "parse_value m s = Some (v, r1)" "skip_ws r1 = c # r'"
         "c = CHR '','' \<and> (\<exists>vs'. parse_elements m r' = Some (vs', r)) \<or> r = r'"
      by blast
    from * Suc have "length r1 < length s" by blast
    moreover from *(2) skip_ws_length [of r1] have "length r' < length r1" by simp
    moreover from *(3) Suc have "length r \<le> length r'" by fastforce
    ultimately show ?thesis by simp
  qed
  have m: "length r < length s" if "parse_members (Suc m) s = Some (kvs, r)" for s kvs r
  proof -
    from parse_members_Suc [OF that] obtain s1 k s2 s3 v r1 c r' where
      *: "skip_ws s = dquote # s1" "parse_chars s1 = Some (k, s2)" "skip_ws s2 = CHR '':'' # s3"
         "parse_value m s3 = Some (v, r1)" "skip_ws r1 = c # r'"
         "c = CHR '','' \<and> (\<exists>kvs'. parse_members m r' = Some (kvs', r)) \<or> r = r'"
      by blast
    from *(1) skip_ws_length [of s] have "length s1 < length s" by simp
    moreover from parse_chars_length [OF *(2)] have "length s2 < length s1" .
    moreover from *(3) skip_ws_length [of s2] have "length s3 < length s2" by simp
    moreover from *(4) Suc have "length r1 < length s3" by blast
    moreover from *(5) skip_ws_length [of r1] have "length r' < length r1" by simp
    moreover from *(6) Suc have "length r \<le> length r'" by fastforce
    ultimately show ?thesis by simp
  qed
  from v e m show ?case
    by blast
qed



text \<open>A call that succeeds with some bound succeeds with every bound that is at least
  the number of characters it consumes.\<close>

lemma parse_bound:
  "(\<forall>n s v r. parse_value m s = Some (v, r) \<longrightarrow> length s - length r \<le> n \<longrightarrow> parse_value n s = Some (v, r))
   \<and> (\<forall>n s vs r. parse_elements m s = Some (vs, r) \<longrightarrow> length s - length r \<le> n \<longrightarrow> parse_elements n s = Some (vs, r))
   \<and> (\<forall>n s kvs r. parse_members m s = Some (kvs, r) \<longrightarrow> length s - length r \<le> n \<longrightarrow> parse_members n s = Some (kvs, r))"
proof (induction m)
  case 0
  show ?case by simp
next
  case (Suc m)
  then have IHv: "\<And>n s v r. parse_value m s = Some (v, r) \<Longrightarrow> length s - length r \<le> n \<Longrightarrow> parse_value n s = Some (v, r)"
    and IHe: "\<And>n s vs r. parse_elements m s = Some (vs, r) \<Longrightarrow> length s - length r \<le> n \<Longrightarrow> parse_elements n s = Some (vs, r)"
    and IHm: "\<And>n s kvs r. parse_members m s = Some (kvs, r) \<Longrightarrow> length s - length r \<le> n \<Longrightarrow> parse_members n s = Some (kvs, r)"
    by blast+
  have Lv: "\<And>s v r. parse_value m s = Some (v, r) \<Longrightarrow> length r < length s"
    and Le: "\<And>s vs r. parse_elements m s = Some (vs, r) \<Longrightarrow> length r < length s"
    and Lm: "\<And>s kvs r. parse_members m s = Some (kvs, r) \<Longrightarrow> length r < length s"
    using parse_lengths [of m] by blast+
  have v: "parse_value n s = Some (v, r)"
    if run: "parse_value (Suc m) s = Some (v, r)" and n: "length s - length r \<le> n" for n s v r
  proof -
    from parse_lengths [of "Suc m"] run have "length r < length s"
      by blast
    with n obtain n' where n': "n = Suc n'"
      by (cases n) auto
    from parse_value_Suc [OF run] show ?thesis
    proof (elim disjE exE conjE)
      fix cs vs
      assume *: "skip_ws s = CHR ''['' # cs" "skip_ws cs \<noteq> []" "hd (skip_ws cs) \<noteq> CHR '']''"
                "parse_elements m cs = Some (vs, r)" "v = JArr vs"
      from *(1) skip_ws_length [of s] have "length cs < length s" by simp
      with n n' have "length cs - length r \<le> n'" by simp
      with *(4) have pe: "parse_elements n' cs = Some (vs, r)" by (rule IHe)
      from *(2,3) obtain d r0 where d: "skip_ws cs = d # r0" "d \<noteq> CHR '']''"
        by (cases "skip_ws cs") auto
      show ?thesis
        unfolding n' by (simp add: *(1,5) d pe)
    next
      fix cs kvs
      assume *: "skip_ws s = CHR ''{'' # cs" "skip_ws cs \<noteq> []" "hd (skip_ws cs) \<noteq> CHR ''}''"
                "parse_members m cs = Some (kvs, r)" "v = object_of kvs"
      from *(1) skip_ws_length [of s] have "length cs < length s" by simp
      with n n' have "length cs - length r \<le> n'" by simp
      with *(4) have pm: "parse_members n' cs = Some (kvs, r)" by (rule IHm)
      from *(2,3) obtain d r0 where d: "skip_ws cs = d # r0" "d \<noteq> CHR ''}''"
        by (cases "skip_ws cs") auto
      show ?thesis
        unfolding n' by (simp add: *(1,5) d pm)
    next
      assume "\<forall>n. parse_value (Suc n) s = Some (v, r)"
      then show ?thesis unfolding n' by (rule spec)
    qed
  qed
  have e: "parse_elements n s = Some (vs, r)"
    if run: "parse_elements (Suc m) s = Some (vs, r)" and n: "length s - length r \<le> n" for n s vs r
  proof -
    from parse_elements_Suc [OF run] obtain v r1 c r' where
      *: "parse_value m s = Some (v, r1)" "skip_ws r1 = c # r'"
         "c = CHR '','' \<and> (\<exists>vs'. parse_elements m r' = Some (vs', r) \<and> vs = v # vs')
          \<or> c = CHR '']'' \<and> r = r' \<and> vs = [v]"
      by (elim exE conjE) (rule that)
    from *(1) have l1: "length r1 < length s" by (rule Lv)
    from *(2) skip_ws_length [of r1] have l2: "length r' < length r1" by simp
    from *(3) have l3: "length r \<le> length r'"
    proof (elim disjE exE conjE)
      fix vs' assume "parse_elements m r' = Some (vs', r)"
      from Le [OF this] show ?thesis by simp
    qed simp
    from n l1 l2 l3 obtain n' where n': "n = Suc n'"
      by (cases n) auto
    from n n' l1 l2 l3 have "length s - length r1 \<le> n'" by simp
    with *(1) have pv: "parse_value n' s = Some (v, r1)" by (rule IHv)
    from *(3) show ?thesis
    proof (elim disjE exE conjE)
      fix vs'
      assume c: "c = CHR '',''" and rest: "parse_elements m r' = Some (vs', r)" and vs: "vs = v # vs'"
      from n n' l1 l2 have "length r' - length r \<le> n'" by simp
      with rest have "parse_elements n' r' = Some (vs', r)" by (rule IHe)
      then show ?thesis unfolding n' by (simp add: pv *(2) c vs)
    next
      assume "c = CHR '']''" "r = r'" "vs = [v]"
      then show ?thesis unfolding n' by (simp add: pv *(2))
    qed
  qed
  have m: "parse_members n s = Some (kvs, r)"
    if run: "parse_members (Suc m) s = Some (kvs, r)" and n: "length s - length r \<le> n" for n s kvs r
  proof -
    from parse_members_Suc [OF run] obtain s1 k s2 s3 v r1 c r' where
      *: "skip_ws s = dquote # s1" "parse_chars s1 = Some (k, s2)" "skip_ws s2 = CHR '':'' # s3"
         "parse_value m s3 = Some (v, r1)" "skip_ws r1 = c # r'"
         "c = CHR '','' \<and> (\<exists>kvs'. parse_members m r' = Some (kvs', r) \<and> kvs = (k, v) # kvs')
          \<or> c = CHR ''}'' \<and> r = r' \<and> kvs = [(k, v)]"
      by (elim exE conjE) (rule that)
    from *(1) skip_ws_length [of s] have l0: "length s1 < length s" by simp
    from parse_chars_length [OF *(2)] have l1: "length s2 < length s1" .
    from *(3) skip_ws_length [of s2] have l2: "length s3 < length s2" by simp
    from *(4) have l3: "length r1 < length s3" by (rule Lv)
    from *(5) skip_ws_length [of r1] have l4: "length r' < length r1" by simp
    from *(6) have l5: "length r \<le> length r'"
    proof (elim disjE exE conjE)
      fix kvs' assume "parse_members m r' = Some (kvs', r)"
      from Lm [OF this] show ?thesis by simp
    qed simp
    from n l0 l1 l2 l3 l4 l5 obtain n' where n': "n = Suc n'"
      by (cases n) auto
    from n n' l0 l1 l2 l3 l4 l5 have "length s3 - length r1 \<le> n'" by simp
    with *(4) have pv: "parse_value n' s3 = Some (v, r1)" by (rule IHv)
    from *(6) show ?thesis
    proof (elim disjE exE conjE)
      fix kvs'
      assume c: "c = CHR '',''" and rest: "parse_members m r' = Some (kvs', r)" and kvs: "kvs = (k, v) # kvs'"
      from n n' l0 l1 l2 l3 l4 have "length r' - length r \<le> n'" by simp
      with rest have "parse_members n' r' = Some (kvs', r)" by (rule IHm)
      then show ?thesis unfolding n' by (simp add: pv *(1,2,3,5) c kvs)
    next
      assume "c = CHR ''}''" "r = r'" "kvs = [(k, v)]"
      then show ?thesis unfolding n' by (simp add: pv *(1,2,3,5))
    qed
  qed
  show ?case
  proof (intro conjI allI impI)
    fix n s v r
    assume "parse_value (Suc m) s = Some (v, r)" "length s - length r \<le> n"
    then show "parse_value n s = Some (v, r)" by (rule v)
  next
    fix n s vs r
    assume "parse_elements (Suc m) s = Some (vs, r)" "length s - length r \<le> n"
    then show "parse_elements n s = Some (vs, r)" by (rule e)
  next
    fix n s kvs r
    assume "parse_members (Suc m) s = Some (kvs, r)" "length s - length r \<le> n"
    then show "parse_members n s = Some (kvs, r)" by (rule m)
  qed
qed

text \<open>So the bound \<open>JSON_parse\<close> passes, the length of the text, never makes a text fail
  that some bound would let through.\<close>

lemma parse_value_length_enough:
  assumes "parse_value m s = Some (v, r)"
  shows "parse_value (length s) s = Some (v, r)"
proof -
  from parse_bound [of m]
  have "\<forall>n s v r. parse_value m s = Some (v, r) \<longrightarrow> length s - length r \<le> n \<longrightarrow> parse_value n s = Some (v, r)"
    by (rule conjunct1)
  then have "parse_value m s = Some (v, r) \<longrightarrow> length s - length r \<le> length s \<longrightarrow> parse_value (length s) s = Some (v, r)"
    by (elim allE)
  with assms show ?thesis
    by (simp del: parse_value.simps)
qed

lemma JSON_parse_iff:
  "JSON_parse s = Inr v \<longleftrightarrow> (\<exists>m r. parse_value m s = Some (v, r) \<and> skip_ws r = [])"
proof
  assume "JSON_parse s = Inr v"
  then obtain r where "parse_value (length s) s = Some (v, r)" "skip_ws r = []"
    by (auto simp: JSON_parse_def split: option.splits if_splits)
  then show "\<exists>m r. parse_value m s = Some (v, r) \<and> skip_ws r = []"
    by blast
next
  assume "\<exists>m r. parse_value m s = Some (v, r) \<and> skip_ws r = []"
  then obtain m r where "parse_value m s = Some (v, r)" and r: "skip_ws r = []"
    by blast
  from parse_value_length_enough [OF this(1)] r show "JSON_parse s = Inr v"
    by (simp add: JSON_parse_def)
qed

section \<open>The statements on a table\<close>

lemma find_map_same:
  "(\<And>x. P (f x) = P x) \<Longrightarrow> find P (map f xs) = map_option f (find P xs)"
  by (induction xs) simp_all

lemma map_unchanged: "(\<And>x. x \<in> set xs \<Longrightarrow> f x = x) \<Longrightarrow> map f xs = xs"
  by (induction xs) simp_all

lemma select_None_rowid: "select_by_id d i = None \<Longrightarrow> r \<in> set (orders d) \<Longrightarrow> rowid r \<noteq> i"
  by (auto simp: select_by_id_def find_None_iff)

text \<open>None of the five status words is the text of an integer, so the \<open>CASE\<close> of the
  status UPDATE always takes its \<open>ELSE\<close>.\<close>

lemma affinity_status: "s \<in> set statuses \<Longrightarrow> numeric_affinity (SqlText s) = SqlText s"
  by (auto simp: statuses_def integer_literal_def is_digit_def)

lemma case_status:
  "s \<in> set statuses \<Longrightarrow>
   (if sql_equal (numeric_affinity (SqlText s)) (SqlInteger a) then 1 else a) = a"
  by (simp add: affinity_status del: numeric_affinity.simps)

lemma update_status_orders:
  "s \<in> set statuses \<Longrightarrow>
   orders (update_status d s s i) = map (\<lambda>r. if rowid r = i then r\<lparr>status := s\<rparr> else r) (orders d)"
  by (simp add: update_status_def case_status del: numeric_affinity.simps)

lemma select_update_status:
  assumes "s \<in> set statuses"
  shows "select_by_id (update_status d s s i) i = map_option (\<lambda>r. r\<lparr>status := s\<rparr>) (select_by_id d i)"
proof -
  have "find (\<lambda>r. rowid r = i) (map (\<lambda>r. if rowid r = i then r\<lparr>status := s\<rparr> else r) (orders d))
        = map_option (\<lambda>r. if rowid r = i then r\<lparr>status := s\<rparr> else r) (find (\<lambda>r. rowid r = i) (orders d))"
    by (rule find_map_same) simp
  then show ?thesis
    by (cases "find (\<lambda>r. rowid r = i) (orders d)")
       (auto simp: select_by_id_def update_status_orders [OF assms] dest: find_Some_iff [THEN iffD1])
qed

lemma select_update_billed:
  "select_by_id (update_billed d s i) i = map_option (\<lambda>r. r\<lparr>status := s, archived := 1\<rparr>) (select_by_id d i)"
proof -
  have "find (\<lambda>r. rowid r = i) (map (\<lambda>r. if rowid r = i then r\<lparr>status := s, archived := 1\<rparr> else r) (orders d))
        = map_option (\<lambda>r. if rowid r = i then r\<lparr>status := s, archived := 1\<rparr> else r) (find (\<lambda>r. rowid r = i) (orders d))"
    by (rule find_map_same) simp
  then show ?thesis
    by (cases "find (\<lambda>r. rowid r = i) (orders d)")
       (auto simp: select_by_id_def update_billed_def dest: find_Some_iff [THEN iffD1])
qed

lemma select_update_items:
  "select_by_id (update_items d ij sr st i) i =
     map_option (\<lambda>r. r\<lparr>items_json := Some ij, special_requests := Some sr, status := st\<rparr>) (select_by_id d i)"
proof -
  let ?f = "\<lambda>r. if rowid r = i then r\<lparr>items_json := Some ij, special_requests := Some sr, status := st\<rparr> else r"
  have "find (\<lambda>r. rowid r = i) (map ?f (orders d)) = map_option ?f (find (\<lambda>r. rowid r = i) (orders d))"
    by (rule find_map_same) simp
  then show ?thesis
    by (cases "find (\<lambda>r. rowid r = i) (orders d)")
       (auto simp: select_by_id_def update_items_def dest: find_Some_iff [THEN iffD1])
qed

lemma find_append:
  "find P (xs @ ys) = (case find P xs of None \<Rightarrow> find P ys | Some x \<Rightarrow> Some x)"
  by (induction xs) simp_all

lemma foldr_max_ge: "s \<le> foldr max xs (s::int)"
  by (induction xs) auto

lemma foldr_max_mem: "x \<in> set xs \<Longrightarrow> x \<le> foldr max xs (s::int)"
  by (induction xs) (auto simp: max_def)

lemma rowid_less_next: "r \<in> set (orders d) \<Longrightarrow> rowid r < next_rowid d"
  using foldr_max_mem [of "rowid r" "map rowid (orders d)" "sequence d"]
  by (simp add: next_rowid_def)

lemma sequence_less_next: "sequence d < next_rowid d"
  using foldr_max_ge [of "sequence d" "map rowid (orders d)"]
  by (simp add: next_rowid_def)

lemma select_next_rowid: "select_by_id d (next_rowid d) = None"
  using rowid_less_next [of _ d]
  by (fastforce simp: select_by_id_def find_None_iff)

lemma select_inserted:
  "select_by_id (fst (insert_order d now t ij sr st)) (next_rowid d) =
     Some \<lparr>rowid = next_rowid d, table_no = t, items_json = Some ij, special_requests = Some sr,
           status = st, created_at = now, archived = 0\<rparr>"
  using select_next_rowid [of d]
  by (simp add: insert_order_def Let_def select_by_id_def find_append)

text \<open>Rows with one \<open>created_at\<close> leave \<open>ORDER BY\<close> in the order they came in.\<close>

lemma order_by_created_at_desc_stable:
  "filter (\<lambda>r. created_at r = k) (order_by_created_at_desc rows) = filter (\<lambda>r. created_at r = k) rows"
  using sort_key_stable [of "\<lambda>r. - int (created_at r)" "- int k" rows]
  by (simp add: order_by_created_at_desc_def)

lemma sort_key_Nil_iff: "sort_key f xs = [] \<longleftrightarrow> xs = []"
  by (metis length_0_conv length_sort)

lemma hd_sort_key_least:
  assumes "sort_key f xs = y # ys"
  shows "y \<in> set xs \<and> (\<forall>x \<in> set xs. f y \<le> f x)"
proof -
  have "set (y # ys) = set xs"
    using assms set_sort [of f xs] by simp
  moreover have "sorted (map f (y # ys))"
    using assms sorted_sort_key [of f xs] by simp
  ultimately show ?thesis
    by auto
qed

lemma select_latest_active_Some:
  assumes "select_latest_active d t = Some e"
  shows "e \<in> set (orders d) \<and> table_no e = t \<and> archived e = 0
       \<and> (\<forall>r \<in> set (orders d). table_no r = t \<and> archived r = 0 \<longrightarrow> created_at r \<le> created_at e)"
proof -
  let ?xs = "filter (\<lambda>r. table_no r = t \<and> archived r = 0) (orders d)"
  from assms obtain ys where "sort_key (\<lambda>r. - int (created_at r)) ?xs = e # ys"
    by (auto simp: select_latest_active_def order_by_created_at_desc_def split: list.splits)
  from hd_sort_key_least [OF this] show ?thesis
    by auto
qed

lemma select_latest_active_None:
  "select_latest_active d t = None \<longleftrightarrow> (\<forall>r \<in> set (orders d). \<not> (table_no r = t \<and> archived r = 0))"
proof -
  have "select_latest_active d t = None \<longleftrightarrow> filter (\<lambda>r. table_no r = t \<and> archived r = 0) (orders d) = []"
    by (auto simp: select_latest_active_def order_by_created_at_desc_def sort_key_Nil_iff split: list.splits)
  then show ?thesis
    by (simp add: filter_empty_conv)
qed

lemma find_distinct_key:
  "distinct (map f xs) \<Longrightarrow> x \<in> set xs \<Longrightarrow> find (\<lambda>y. f y = f x) xs = Some x"
  by (induction xs) (auto simp: rev_image_eqI)

lemma select_by_id_distinct:
  "distinct (map rowid (orders d)) \<Longrightarrow> r \<in> set (orders d) \<Longrightarrow> select_by_id d (rowid r) = Some r"
  unfolding select_by_id_def by (rule find_distinct_key)

lemma select_update_items_other:
  assumes "j \<noteq> i"
  shows "select_by_id (update_items d ij sr st i) j = select_by_id d j"
proof -
  let ?f = "\<lambda>r. if rowid r = i then r\<lparr>items_json := Some ij, special_requests := Some sr, status := st\<rparr> else r"
  have "find (\<lambda>r. rowid r = j) (map ?f (orders d)) = map_option ?f (find (\<lambda>r. rowid r = j) (orders d))"
    by (rule find_map_same) simp
  then show ?thesis
    using assms
    by (cases "find (\<lambda>r. rowid r = j) (orders d)")
       (auto simp: select_by_id_def update_items_def dest: find_Some_iff [THEN iffD1])
qed


section \<open>The handlers\<close>

lemma fst_emit_updated: "fst (emit_updated d i name) = d"
  by (simp add: emit_updated_def split: option.splits sum.splits)

lemma fst_setStatus:
  "s \<in> set statuses \<Longrightarrow> fst (setStatus d i (Some (JStr s))) = update_status d s s i"
  by (simp add: setStatus_def fst_emit_updated)

lemma fst_bill: "fst (bill d i) = update_billed d ''billed'' i"
  by (simp add: bill_def fst_emit_updated)

lemma or_string_stringify: "or_string (Some (JSON_stringify v)) d = JSON_stringify v"
  by (simp add: stringify_nonempty)

text \<open>Every way through \<open>appendItems\<close> that ends in a 200.\<close>

lemma appendItems_success:
  assumes "appendItems d t p_items sr = (d', tr)" and "Send 200 rep \<in> set tr"
  shows "\<exists>its existing existingItems newItems updated v.
           p_items = Some (JArr its) \<and> its \<noteq> []
         \<and> select_latest_active d t = Some existing
         \<and> JSON_parse (or_string (items_json existing) ''[]'') = Inr existingItems
         \<and> js_concat existingItems its = Inr newItems
         \<and> d' = update_items d (JSON_stringify newItems) (updatedRequests existing sr) ''placed'' (rowid existing)
         \<and> select_by_id d' (rowid existing) = Some updated
         \<and> JSON_parse (or_string (items_json updated) ''[]'') = Inr v
         \<and> tr = [Written, Emit ''order:items-added'' \<lparr>row = updated, items = v\<rparr>,
                  Send 200 (OkOrder \<lparr>row = updated, items = v\<rparr>)]"
  using assms
  unfolding appendItems_def Let_def
  by (auto split: option.splits json.splits sum.splits if_splits)

text \<open>The two ways through \<open>create\<close>.\<close>

lemma create_accepts:
  assumes "t \<noteq> []"
  shows "create d now (Some t) (Some (JArr xs)) sr =
     (let r = \<lparr>rowid = next_rowid d, table_no = t, items_json = Some (JSON_stringify (JArr xs)),
                special_requests = Some (or_string sr []), status = ''placed'',
                created_at = now, archived = 0\<rparr>
      in (\<lparr>orders = orders d @ [r], sequence = next_rowid d\<rparr>,
          [Written, Emit ''order:placed'' \<lparr>row = r, items = JArr xs\<rparr>, Send 200 (OkId (next_rowid d))]))"
proof -
  have "select_by_id (fst (insert_order d now t (JSON_stringify (JArr xs)) (or_string sr []) ''placed'')) (next_rowid d) =
     Some \<lparr>rowid = next_rowid d, table_no = t, items_json = Some (JSON_stringify (JArr xs)),
            special_requests = Some (or_string sr []), status = ''placed'', created_at = now, archived = 0\<rparr>"
    by (rule select_inserted)
  then show ?thesis
    using assms
    by (simp add: create_def insert_order_def Let_def del: JSON_stringify.simps)
qed

lemma create_rejects:
  assumes "p_table_no = None \<or> p_table_no = Some [] \<or> \<not> isArray p_items"
  shows "create d now p_table_no p_items sr = (d, [Send 400 (Error ''table_no and items[] required'')])"
  using assms by (auto simp: create_def)

lemma isArray_iff: "isArray p = (\<exists>xs. p = Some (JArr xs))"
  by (cases p rule: isArray.cases) simp_all

lemma appendItems_none_active:
  assumes "select_latest_active d t = None" and "new \<noteq> []"
  shows "appendItems d t (Some (JArr new)) sr = (d, [Send 404 (Error ''no active order for this table'')])"
  using assms by (simp add: appendItems_def)

text \<open>The table \<open>appendItems\<close> leaves: the one it was given, or that with the
  latest active order of the table updated.\<close>

lemma fst_appendItems:
  "fst (appendItems d t p_items sr) = d
   \<or> (\<exists>existing ij. select_latest_active d t = Some existing
         \<and> fst (appendItems d t p_items sr) =
             update_items d ij (updatedRequests existing sr) ''placed'' (rowid existing))"
  unfolding appendItems_def Let_def
  by (auto split: option.splits json.splits sum.splits)


lemma set_order_by: "set (order_by_created_at_desc rows) = set rows"
  by (simp add: order_by_created_at_desc_def)


lemma create_cases:
  "create d now p_table_no p_items sr = (d, [Send 400 (Error ''table_no and items[] required'')])
   \<or> (\<exists>r its. p_items = Some its
        \<and> create d now p_table_no p_items sr =
            (\<lparr>orders = orders d @ [r], sequence = rowid r\<rparr>,
             [Written, Emit ''order:placed'' \<lparr>row = r, items = its\<rparr>, Send 200 (OkId (rowid r))])
        \<and> select_by_id \<lparr>orders = orders d @ [r], sequence = rowid r\<rparr> (rowid r) = Some r)"
proof (cases "p_table_no = None \<or> p_table_no = Some [] \<or> \<not> isArray p_items")
  case True
  then show ?thesis
    by (simp add: create_rejects)
next
  case False
  then obtain t xs where p: "p_table_no = Some t" "t \<noteq> []" "p_items = Some (JArr xs)"
    by (auto simp: isArray_iff)
  let ?r = "\<lparr>rowid = next_rowid d, table_no = t, items_json = Some (JSON_stringify (JArr xs)),
             special_requests = Some (or_string sr []), status = ''placed'',
             created_at = now, archived = 0\<rparr>"
  have "select_by_id \<lparr>orders = orders d @ [?r], sequence = next_rowid d\<rparr> (next_rowid d) = Some ?r"
    using select_inserted [of d now t "JSON_stringify (JArr xs)" "or_string sr []" "''placed''"]
    by (simp add: insert_order_def Let_def)
  then have "p_items = Some (JArr xs)
        \<and> create d now p_table_no p_items sr =
            (\<lparr>orders = orders d @ [?r], sequence = rowid ?r\<rparr>,
             [Written, Emit ''order:placed'' \<lparr>row = ?r, items = JArr xs\<rparr>, Send 200 (OkId (rowid ?r))])
        \<and> select_by_id \<lparr>orders = orders d @ [?r], sequence = rowid ?r\<rparr> (rowid ?r) = Some ?r"
    using p create_accepts [OF p(2), of d now xs sr]
    by (simp add: Let_def del: JSON_stringify.simps)
  then show ?thesis
    by blast
qed


section \<open>The tables the handlers produce\<close>

lemma stored_array_parse:
  assumes "stored_array r"
  shows "\<exists>ys. JSON_parse (or_string (items_json r) ''[]'') = Inr (JArr ys) \<and> wf_json (JArr ys)"
proof -
  from assms obtain ys where ys: "items_json r = Some (JSON_stringify (JArr ys))" "wf_json (JArr ys)"
    by (auto simp: stored_array_def)
  have "JSON_parse (JSON_stringify (JArr ys)) = Inr (json_clone (JArr ys))"
    using ys(2) by (rule JSON_parse_stringify)
  moreover have "wf_json (json_clone (JArr ys))"
    using ys(2) by (rule wf_json_clone)
  ultimately show ?thesis
    using ys(1) by (simp add: or_string_stringify del: or_string.simps JSON_stringify.simps)
qed

lemma valid_db_map:
  assumes "valid_db d" and "\<And>r. rowid (f r) = rowid r"
  shows "valid_db (d\<lparr>orders := map f (orders d)\<rparr>)"
  using assms by (simp add: valid_db_def comp_def)

lemma consistent_map:
  assumes "consistent d" and "\<And>r. rowid (f r) = rowid r"
      and "\<And>r. r \<in> set (orders d) \<Longrightarrow> stored_array (f r)"
  shows "consistent (d\<lparr>orders := map f (orders d)\<rparr>)"
  using assms valid_db_map [of d f] by (auto simp: consistent_def)

lemma stored_array_update [simp]:
  "stored_array (r\<lparr>status := s\<rparr>) = stored_array r"
  "stored_array (r\<lparr>archived := a\<rparr>) = stored_array r"
  "stored_array (r\<lparr>special_requests := q\<rparr>) = stored_array r"
  by (simp_all add: stored_array_def)

lemma consistent_update_status: "consistent d \<Longrightarrow> consistent (update_status d p1 p2 i)"
  unfolding update_status_def
  by (rule consistent_map) (auto simp: consistent_def simp del: numeric_affinity.simps)

lemma consistent_update_billed: "consistent d \<Longrightarrow> consistent (update_billed d s i)"
  unfolding update_billed_def
  by (rule consistent_map) (auto simp: consistent_def)

lemma consistent_update_items:
  "consistent d \<Longrightarrow> wf_json (JArr ys) \<Longrightarrow> consistent (update_items d (JSON_stringify (JArr ys)) q s i)"
  unfolding update_items_def
  by (rule consistent_map) (auto simp: consistent_def stored_array_def simp del: JSON_stringify.simps)

lemma consistent_insert:
  assumes "consistent d" and "wf_json (JArr ys)"
  shows "consistent (fst (insert_order d now t (JSON_stringify (JArr ys)) q s))"
proof -
  let ?r = "\<lparr>rowid = next_rowid d, table_no = t, items_json = Some (JSON_stringify (JArr ys)),
             special_requests = Some q, status = s, created_at = now, archived = 0\<rparr>"
  have d': "fst (insert_order d now t (JSON_stringify (JArr ys)) q s) =
              \<lparr>orders = orders d @ [?r], sequence = next_rowid d\<rparr>"
    by (simp add: insert_order_def Let_def)
  have fresh: "next_rowid d \<notin> rowid ` set (orders d)"
    using rowid_less_next [of _ d] by fastforce
  have below: "\<forall>r \<in> set (orders d). rowid r \<le> next_rowid d"
    using rowid_less_next [of _ d] by fastforce
  have "valid_db \<lparr>orders = orders d @ [?r], sequence = next_rowid d\<rparr>"
    using assms(1) fresh below by (simp add: consistent_def valid_db_def)
  moreover have "stored_array ?r"
    using assms(2) by (auto simp: stored_array_def simp del: JSON_stringify.simps)
  ultimately show ?thesis
    using assms(1) by (simp add: d' consistent_def del: JSON_stringify.simps)
qed

lemma consistent_empty: "consistent empty_db"
  by (simp add: consistent_def valid_db_def empty_db_def)

lemma consistent_handle:
  assumes "consistent d" and "wf_request req"
  shows "consistent (fst (handle d req))"
proof (cases req)
  case (ListActive p_status)
  with assms show ?thesis
    by (simp add: listActive_def Let_def split: sum.splits)
next
  case (Create now p_table_no p_items sr)
  show ?thesis
  proof (cases "p_table_no = None \<or> p_table_no = Some [] \<or> \<not> isArray p_items")
    case True
    with assms Create show ?thesis
      by (simp add: create_rejects)
  next
    case False
    then obtain t xs where p: "p_table_no = Some t" "t \<noteq> []" "p_items = Some (JArr xs)"
      by (auto simp: isArray_iff)
    with assms Create have "wf_json (JArr xs)"
      by simp
    from consistent_insert [OF assms(1) this, of now t "or_string sr []" "''placed''"]
    show ?thesis
      using Create p create_accepts [OF p(2), of d now xs sr]
      by (simp add: insert_order_def Let_def del: JSON_stringify.simps)
  qed
next
  case (AppendItems t p_items sr)
  show ?thesis
  proof (cases "fst (appendItems d t p_items sr) = d")
    case True
    with assms AppendItems show ?thesis
      by simp
  next
    case False
    obtain d' tr where run: "appendItems d t p_items sr = (d', tr)"
      by (cases "appendItems d t p_items sr")
    with False have "d' \<noteq> d"
      by simp
    with run obtain its existing existingItems newItems where
          p: "p_items = Some (JArr its)"
      and latest: "select_latest_active d t = Some existing"
      and old: "JSON_parse (or_string (items_json existing) ''[]'') = Inr existingItems"
      and new: "js_concat existingItems its = Inr newItems"
      and d': "d' = update_items d (JSON_stringify newItems) (updatedRequests existing sr) ''placed'' (rowid existing)"
      unfolding appendItems_def Let_def
      by (auto split: option.splits json.splits sum.splits if_splits)
    from latest have "existing \<in> set (orders d)"
      using select_latest_active_Some by blast
    with assms(1) have "stored_array existing"
      by (simp add: consistent_def)
    from stored_array_parse [OF this] old obtain ys where
      ys: "existingItems = JArr ys" "wf_json (JArr ys)"
      by auto
    from assms(2) AppendItems p have "wf_json (JArr its)"
      by simp
    with ys new have "newItems = JArr (ys @ its)" "wf_json (JArr (ys @ its))"
      by auto
    with consistent_update_items [OF assms(1), of "ys @ its"] d' run AppendItems show ?thesis
      by simp
  qed
next
  case (SetStatus i p_status)
  with assms show ?thesis
    by (auto simp: setStatus_def fst_emit_updated consistent_update_status
             split: option.splits json.splits)
next
  case (Bill i)
  with assms show ?thesis
    by (simp add: fst_bill consistent_update_billed)
qed

lemma reachable_consistent: "reachable d \<Longrightarrow> consistent d"
  by (induction rule: reachable.induct) (simp_all add: consistent_empty consistent_handle)

lemma consistent_distinct: "consistent d \<Longrightarrow> distinct (map rowid (orders d))"
  by (simp add: consistent_def valid_db_def)

lemma consistent_readable:
  "consistent d \<Longrightarrow> r \<in> set (orders d) \<Longrightarrow> \<exists>v. JSON_parse (or_string (items_json r) ''[]'') = Inr v"
  using stored_array_parse [of r] by (auto simp: consistent_def)

text \<open>On such a table a handler throws only where the status handlers miss the order.\<close>

lemma expand_total:
  "(\<And>r. r \<in> set rs \<Longrightarrow> \<exists>v. JSON_parse (or_string (items_json r) ''[]'') = Inr v)
     \<Longrightarrow> \<exists>os. expand rs = Inr os"
proof (induction rs)
  case Nil
  show ?case by simp
next
  case (Cons r rs)
  from Cons.prems [of r] obtain v where "JSON_parse (or_string (items_json r) ''[]'') = Inr v"
    by auto
  moreover from Cons obtain os where "expand rs = Inr os"
    by auto
  ultimately show ?case
    by simp
qed

lemma select_by_id_member: "select_by_id d i = Some r \<Longrightarrow> r \<in> set (orders d)"
  by (auto simp: select_by_id_def dest: find_Some_iff [THEN iffD1])

lemma select_by_id_exists: "r \<in> set (orders d) \<Longrightarrow> select_by_id d (rowid r) \<noteq> None"
  by (auto simp: select_by_id_def find_None_iff)

lemma emit_updated_throws:
  assumes "consistent d'" and "Throw e \<in> set (snd (emit_updated d' i name))"
  shows "e = TypeError \<and> select_by_id d' i = None"
proof (cases "select_by_id d' i")
  case None
  with assms(2) show ?thesis
    by (simp add: emit_updated_def)
next
  case (Some updated)
  from select_by_id_member [OF this] assms(1)
  obtain v where "JSON_parse (or_string (items_json updated) ''[]'') = Inr v"
    using consistent_readable by blast
  with Some assms(2) show ?thesis
    by (simp add: emit_updated_def)
qed

lemma listActive_sends:
  assumes "consistent d"
  shows "\<exists>os. listActive d p_status = (d, [Send 200 (Rows os)])"
proof -
  define rs where "rs = (case p_status of
                    None \<Rightarrow> select_active d
                  | Some s \<Rightarrow> if s \<noteq> [] then select_active_with_status d s else select_active d)"
  have "set rs \<subseteq> set (orders d)"
    by (auto simp: rs_def select_active_def select_active_with_status_def set_order_by split: option.splits)
  with assms have "\<exists>os. expand rs = Inr os"
    by (intro expand_total consistent_readable) auto
  then show ?thesis
    by (auto simp: listActive_def rs_def)
qed

lemma appendItems_throws:
  assumes "consistent d" and "\<forall>v. p_items = Some v \<longrightarrow> wf_json v"
  shows "Throw e \<notin> set (snd (appendItems d t p_items sr))"
proof
  assume thrown: "Throw e \<in> set (snd (appendItems d t p_items sr))"
  then obtain its existing where
        p: "p_items = Some (JArr its)" and latest: "select_latest_active d t = Some existing"
    unfolding appendItems_def Let_def
    by (auto split: option.splits json.splits sum.splits if_splits)
  from latest have mem: "existing \<in> set (orders d)"
    using select_latest_active_Some by blast
  with assms(1) have "stored_array existing"
    by (simp add: consistent_def)
  from stored_array_parse [OF this] obtain ys where
    ys: "JSON_parse (or_string (items_json existing) ''[]'') = Inr (JArr ys)" "wf_json (JArr ys)"
    by auto
  from assms(2) p ys(2) have wf: "wf_json (JArr (ys @ its))"
    by auto
  let ?d' = "update_items d (JSON_stringify (JArr (ys @ its))) (updatedRequests existing sr) ''placed'' (rowid existing)"
  from select_by_id_exists [OF mem] obtain r0 where r0: "select_by_id d (rowid existing) = Some r0"
    by auto
  let ?u = "r0\<lparr>items_json := Some (JSON_stringify (JArr (ys @ its))),
               special_requests := Some (updatedRequests existing sr), status := ''placed''\<rparr>"
  have u: "select_by_id ?d' (rowid existing) = Some ?u"
    by (simp add: select_update_items r0 del: JSON_stringify.simps)
  have "JSON_parse (or_string (items_json ?u) ''[]'') = Inr (json_clone (JArr (ys @ its)))"
    using JSON_parse_stringify [OF wf]
    by (simp add: or_string_stringify del: JSON_stringify.simps or_string.simps json_clone.simps)
  with thrown p latest ys(1) u show False
    unfolding appendItems_def Let_def
    by (auto simp del: JSON_stringify.simps or_string.simps json_clone.simps split: if_splits)
qed

lemma throws_only_missing_order:
  assumes "consistent d" and "wf_request req" and "Throw e \<in> set (snd (handle d req))"
  shows "e = TypeError
       \<and> (\<exists>i. (req = Bill i \<or> (\<exists>p_status. req = SetStatus i p_status)) \<and> select_by_id d i = None)"
proof (cases req)
  case (ListActive p_status)
  with assms(3) listActive_sends [OF assms(1), of p_status] show ?thesis
    by auto
next
  case (Create now p_table_no p_items sr)
  with assms(3) create_cases [of d now p_table_no p_items sr] show ?thesis
    by auto
next
  case (AppendItems t p_items sr)
  with assms appendItems_throws [of d p_items e t sr] show ?thesis
    by simp
next
  case (SetStatus i p_status)
  with assms(3) obtain s where s: "p_status = Some (JStr s)" "s \<in> set statuses"
    and thrown: "Throw e \<in> set (snd (emit_updated (update_status d s s i) i ''order:status-changed''))"
    by (auto simp: setStatus_def split: option.splits json.splits if_splits)
  from emit_updated_throws [OF consistent_update_status [OF assms(1)] thrown]
  show ?thesis
    using SetStatus by (auto simp: select_update_status [OF s(2)])
next
  case (Bill i)
  with assms(3) have thrown: "Throw e \<in> set (snd (emit_updated (update_billed d ''billed'' i) i ''order:billed''))"
    by (simp add: bill_def)
  from emit_updated_throws [OF consistent_update_billed [OF assms(1)] thrown]
  show ?thesis
    using Bill by (auto simp: select_update_billed)
qed

section \<open>The claims\<close>

text \<open>
  C1. The claim: for an existing order and a valid status, \<open>setStatus\<close> sets
  \<open>archived\<close> exactly when the status is \<open>archived\<close>. The code: for each of the five
  status values \<open>setStatus\<close> writes the status and leaves \<open>archived\<close> as it was, also
  for \<open>archived\<close>, because the \<open>"archived"\<close> of its \<open>CASE\<close> is the column.
\<close>

theorem setStatus_keeps_archived:
  assumes "select_by_id d i = Some r" and "s \<in> set statuses"
  shows "select_by_id (fst (setStatus d i (Some (JStr s)))) i = Some (r\<lparr>status := s\<rparr>)"
  using assms by (simp add: fst_setStatus select_update_status)

theorem setStatus_keeps_archived_witness:
  "select_by_id (fst (setStatus one_order 1 (Some (JStr ''archived'')))) 1 =
     Some \<lparr>rowid = 1, table_no = ''T1'', items_json = Some ''[]'', special_requests = Some [],
           status = ''archived'', created_at = 5, archived = 0\<rparr>"
  using setStatus_keeps_archived [of one_order 1 _ "''archived''"]
  by (simp add: one_order_def select_by_id_def statuses_def)

text \<open>
  C2. The claim: for an id without an order, \<open>setStatus\<close> and \<open>bill\<close> answer 404. The
  code: the UPDATE changes no row, the row read back is \<open>undefined\<close>, and assigning
  its \<open>items\<close> throws a TypeError before anything is emitted or sent.
\<close>

theorem missing_order_throws:
  assumes "select_by_id d i = None" and "s \<in> set statuses"
  shows "setStatus d i (Some (JStr s)) = (d, [Written, Throw TypeError])
       \<and> bill d i = (d, [Written, Throw TypeError])"
proof -
  have 1: "update_status d s s i = d"
  proof -
    have "orders (update_status d s s i) = orders d"
      using select_None_rowid [OF assms(1)]
      by (simp add: update_status_orders [OF assms(2)] map_unchanged)
    then show ?thesis
      by (simp add: update_status_def)
  qed
  have 2: "update_billed d ''billed'' i = d"
    using select_None_rowid [OF assms(1)]
    by (simp add: update_billed_def map_unchanged)
  show ?thesis
    using assms by (simp add: setStatus_def bill_def 1 2 emit_updated_def)
qed

theorem missing_order_throws_witness:
  "setStatus empty_db 1 (Some (JStr ''ready'')) = (empty_db, [Written, Throw TypeError])
     \<and> bill empty_db 1 = (empty_db, [Written, Throw TypeError])"
  using missing_order_throws [of empty_db 1 "''ready''"]
  by (simp add: empty_db_def select_by_id_def statuses_def)

text \<open>
  C3. For an existing order, \<open>bill\<close> sets status \<open>billed\<close> and \<open>archived = 1\<close>, whereas
  \<open>setStatus\<close> with \<open>billed\<close> sets the status and leaves \<open>archived\<close>; on an order that
  was not archived the two flags differ.
\<close>

theorem bill_archives_setStatus_does_not:
  assumes "select_by_id d i = Some r"
  shows "select_by_id (fst (bill d i)) i = Some (r\<lparr>status := ''billed'', archived := 1\<rparr>)
       \<and> select_by_id (fst (setStatus d i (Some (JStr ''billed'')))) i = Some (r\<lparr>status := ''billed''\<rparr>)
       \<and> (archived r = 0 \<longrightarrow>
            map_option archived (select_by_id (fst (bill d i)) i)
              \<noteq> map_option archived (select_by_id (fst (setStatus d i (Some (JStr ''billed'')))) i))"
proof -
  have s: "''billed'' \<in> set statuses"
    by (simp add: statuses_def)
  show ?thesis
    using assms by (simp add: fst_bill select_update_billed fst_setStatus [OF s] select_update_status [OF s])
qed

theorem bill_archives_setStatus_does_not_witness:
  "select_by_id (fst (bill one_order 1)) 1 =
     Some \<lparr>rowid = 1, table_no = ''T1'', items_json = Some ''[]'', special_requests = Some [],
           status = ''billed'', created_at = 5, archived = 1\<rparr>
   \<and> select_by_id (fst (setStatus one_order 1 (Some (JStr ''billed'')))) 1 =
     Some \<lparr>rowid = 1, table_no = ''T1'', items_json = Some ''[]'', special_requests = Some [],
           status = ''billed'', created_at = 5, archived = 0\<rparr>"
  using bill_archives_setStatus_does_not [of one_order 1]
  by (simp add: one_order_def select_by_id_def)

text \<open>
  C4. For a call of \<open>appendItems\<close> that succeeds on an order whose stored items are the
  array \<open>old\<close>: the request's items are a non-empty array \<open>new\<close>; the items written are
  \<open>old\<close> followed by \<open>new\<close>, and the order sent has them as read back, which is
  \<open>old\<close> followed by \<open>new\<close> itself when no number in them is infinite; the
  special requests are the existing text, followed by \<open>; \<close> and the new text when
  that is not empty; the status is \<open>placed\<close>. The witness is the example of the claim.
\<close>

theorem appendItems_concatenates:
  assumes "appendItems d t p_items sr = (d', tr)"
      and "Send 200 (OkOrder x) \<in> set tr"
      and "select_latest_active d t = Some existing"
      and "JSON_parse (or_string (items_json existing) ''[]'') = Inr (JArr old)"
  shows "\<exists>new. p_items = Some (JArr new) \<and> new \<noteq> []
           \<and> items_json (row x) = Some (JSON_stringify (JArr (old @ new)))
           \<and> JSON_parse (JSON_stringify (JArr (old @ new))) = Inr (items x)
           \<and> (wf_json (JArr (old @ new)) \<and> finite_json (JArr (old @ new)) \<longrightarrow> items x = JArr (old @ new))
           \<and> special_requests (row x) =
               Some (or_string (special_requests existing) [] @
                     (case sr of None \<Rightarrow> [] | Some s \<Rightarrow> if s \<noteq> [] then ''; '' @ s else []))
           \<and> status (row x) = ''placed''
           \<and> select_by_id d' (rowid existing) = Some (row x)"
proof -
  from appendItems_success [OF assms(1,2)] assms(3,4)
  obtain new newItems updated v where
        p: "p_items = Some (JArr new)" "new \<noteq> []"
    and c: "js_concat (JArr old) new = Inr newItems"
    and d': "d' = update_items d (JSON_stringify newItems) (updatedRequests existing sr) ''placed'' (rowid existing)"
    and u: "select_by_id d' (rowid existing) = Some updated"
    and v: "JSON_parse (or_string (items_json updated) ''[]'') = Inr v"
    and tr: "tr = [Written, Emit ''order:items-added'' \<lparr>row = updated, items = v\<rparr>,
                  Send 200 (OkOrder \<lparr>row = updated, items = v\<rparr>)]"
    by auto
  from c have n: "newItems = JArr (old @ new)"
    by simp
  from assms(2) tr have x: "x = \<lparr>row = updated, items = v\<rparr>"
    by simp
  from u d' obtain r0 where
    upd: "updated = r0\<lparr>items_json := Some (JSON_stringify newItems),
                        special_requests := Some (updatedRequests existing sr), status := ''placed''\<rparr>"
    by (auto simp: select_update_items)
  from v upd have parsed: "JSON_parse (JSON_stringify (JArr (old @ new))) = Inr v"
    by (simp add: n or_string_stringify del: or_string.simps JSON_stringify.simps)
  have "v = JArr (old @ new)" if "wf_json (JArr (old @ new))" "finite_json (JArr (old @ new))"
    using JSON_parse_stringify_finite [OF that] parsed by simp
  with parsed p u upd show ?thesis
    by (simp add: x n updatedRequests_def del: JSON_stringify.simps wf_json.simps finite_json.simps)
qed

theorem appendItems_concatenates_witness:
  "\<exists>d' tr x.
      appendItems example_T9 ''T9'' (Some (JArr [sku ''B''])) (Some ''extra spicy'') = (d', tr)
    \<and> Send 200 (OkOrder x) \<in> set tr
    \<and> items x = JArr [sku ''A'', sku ''B'']
    \<and> special_requests (row x) = Some ''no onions; extra spicy''
    \<and> status (row x) = ''placed''"
proof -
  let ?existing = "\<lparr>rowid = 1, table_no = ''T9'', items_json = Some (JSON_stringify (JArr [sku ''A''])),
       special_requests = Some ''no onions'', status = ''placed'', created_at = 0, archived = 0\<rparr>"
  let ?updated = "\<lparr>rowid = 1, table_no = ''T9'', items_json = Some (JSON_stringify (JArr [sku ''A'', sku ''B''])),
       special_requests = Some ''no onions; extra spicy'', status = ''placed'', created_at = 0, archived = 0\<rparr>"
  let ?x = "\<lparr>row = ?updated, items = JArr [sku ''A'', sku ''B'']\<rparr>"
  let ?tr = "[Written, Emit ''order:items-added'' ?x, Send 200 (OkOrder ?x)]"
  let ?d' = "\<lparr>orders = [?updated], sequence = 1\<rparr>"
  have run: "appendItems example_T9 ''T9'' (Some (JArr [sku ''B''])) (Some ''extra spicy'') = (?d', ?tr)"
    by code_simp
  have sent: "Send 200 (OkOrder ?x) \<in> set ?tr"
    by simp
  have latest: "select_latest_active example_T9 ''T9'' = Some ?existing"
    by code_simp
  have old: "JSON_parse (or_string (items_json ?existing) ''[]'') = Inr (JArr [sku ''A''])"
    by code_simp
  from appendItems_concatenates [OF run sent latest old]
  have "special_requests (row ?x) = Some ''no onions; extra spicy'' \<and> status (row ?x) = ''placed''"
    by simp
  with run sent show ?thesis
    by (intro exI [of _ ?d'] exI [of _ ?tr] exI [of _ ?x]) simp
qed

text \<open>
  C5. When every order of a table is the order \<open>i\<close> (its only order) and \<open>i\<close> has been
  billed, \<open>appendItems\<close> for that table, with a non-empty array of items, answers 404:
  the billed order is archived and the table has no active order.
\<close>

theorem appendItems_after_bill:
  assumes "\<forall>r \<in> set (orders d). table_no r = t \<longrightarrow> rowid r = i"
      and "new \<noteq> []"
  shows "appendItems (fst (bill d i)) t (Some (JArr new)) sr =
           (fst (bill d i), [Send 404 (Error ''no active order for this table'')])"
proof -
  have "select_latest_active (fst (bill d i)) t = None"
    using assms(1) by (auto simp: select_latest_active_None fst_bill update_billed_def)
  then show ?thesis
    using assms(2) by (rule appendItems_none_active)
qed

theorem appendItems_after_bill_witness:
  "select_by_id one_order 1 \<noteq> None
   \<and> appendItems (fst (bill one_order 1)) ''T1'' (Some (JArr [sku ''B''])) None =
       (\<lparr>orders = [\<lparr>rowid = 1, table_no = ''T1'', items_json = Some ''[]'', special_requests = Some [],
                    status = ''billed'', created_at = 5, archived = 1\<rparr>],
         sequence = 1\<rparr>,
        [Send 404 (Error ''no active order for this table'')])"
  using appendItems_after_bill [of one_order "''T1''" 1 "[sku ''B'']" None]
  by (simp add: one_order_def fst_bill update_billed_def select_by_id_def)

text \<open>
  C6. \<open>create\<close> answers 400 exactly when \<open>table_no\<close> is missing or empty or \<open>items\<close>
  is not an array; with a non-empty \<open>table_no\<close> and an array of any length it inserts
  the order, emits it and answers with its id. The witness is \<open>create("T1", [], "")\<close>:
  the order has the empty items sequence.
\<close>

theorem create_validation:
  "(create d now p_table_no p_items sr = (d, [Send 400 (Error ''table_no and items[] required'')]))
     = (p_table_no = None \<or> p_table_no = Some [] \<or> \<not> isArray p_items)
   \<and> (t \<noteq> [] \<longrightarrow>
        (\<exists>r. create d now (Some t) (Some (JArr xs)) sr =
                (\<lparr>orders = orders d @ [r], sequence = rowid r\<rparr>,
                 [Written, Emit ''order:placed'' \<lparr>row = r, items = JArr xs\<rparr>, Send 200 (OkId (rowid r))])
            \<and> rowid r = next_rowid d \<and> table_no r = t
            \<and> items_json r = Some (JSON_stringify (JArr xs))
            \<and> special_requests r = Some (or_string sr [])
            \<and> status r = ''placed'' \<and> created_at r = now \<and> archived r = 0))"
proof (intro conjI impI)
  show "(create d now p_table_no p_items sr = (d, [Send 400 (Error ''table_no and items[] required'')]))
     = (p_table_no = None \<or> p_table_no = Some [] \<or> \<not> isArray p_items)"
  proof
    assume l: "create d now p_table_no p_items sr = (d, [Send 400 (Error ''table_no and items[] required'')])"
    show "p_table_no = None \<or> p_table_no = Some [] \<or> \<not> isArray p_items"
    proof (rule ccontr)
      assume "\<not> ?thesis"
      then obtain t xs where "p_table_no = Some t" "t \<noteq> []" "p_items = Some (JArr xs)"
        by (auto simp: isArray_iff)
      with l create_accepts [of t d now xs sr] show False
        by (simp add: Let_def)
    qed
  qed (rule create_rejects)
next
  assume "t \<noteq> []"
  then show "\<exists>r. create d now (Some t) (Some (JArr xs)) sr =
                (\<lparr>orders = orders d @ [r], sequence = rowid r\<rparr>,
                 [Written, Emit ''order:placed'' \<lparr>row = r, items = JArr xs\<rparr>, Send 200 (OkId (rowid r))])
            \<and> rowid r = next_rowid d \<and> table_no r = t
            \<and> items_json r = Some (JSON_stringify (JArr xs))
            \<and> special_requests r = Some (or_string sr [])
            \<and> status r = ''placed'' \<and> created_at r = now \<and> archived r = 0"
    by (simp add: create_accepts Let_def del: JSON_stringify.simps)
qed

theorem create_validation_witness:
  "create empty_db 5 (Some ''T1'') (Some (JArr [])) (Some []) =
     (one_order,
      [Written,
       Emit ''order:placed''
         \<lparr>row = \<lparr>rowid = 1, table_no = ''T1'', items_json = Some ''[]'', special_requests = Some [],
                 status = ''placed'', created_at = 5, archived = 0\<rparr>,
          items = JArr []\<rparr>,
       Send 200 (OkId 1)])"
  using create_validation [of empty_db 5 "Some ''T1''" "Some (JArr [])" "Some []" "''T1''" "[]"]
  by (auto simp: one_order_def empty_db_def next_rowid_def intro!: order_row.equality)

text \<open>
  C7. The claim: with two active orders for a table, \<open>appendItems\<close> changes only the one
  created last. The code selects by \<open>created_at\<close>, which counts seconds: of two orders
  placed within the same second the first one is selected and the one created last is
  left as it was.
\<close>

theorem appendItems_same_second_counterexample:
  "map rowid (orders same_second) = [1, 2]
   \<and> map table_no (orders same_second) = [''T5'', ''T5'']
   \<and> map archived (orders same_second) = [0, 0]
   \<and> map created_at (orders same_second) = [7, 7]
   \<and> map items_json (orders same_second) =
       [Some (JSON_stringify (JArr [sku ''A''])), Some (JSON_stringify (JArr [sku ''B'']))]
   \<and> map items_json (orders (fst (appendItems same_second ''T5'' (Some (JArr [sku ''X''])) None))) =
       [Some (JSON_stringify (JArr [sku ''A'', sku ''X''])), Some (JSON_stringify (JArr [sku ''B'']))]"
  by code_simp

text \<open>
  C7, amended. With unique ids, as every table has that the server reaches
  (\<open>reachable_consistent\<close>): \<open>appendItems\<close> leaves unchanged an active order of the
  table that has a later-stamped active order of the same table beside it; and
  whatever order it changes is an active order of the table with the greatest
  \<open>created_at\<close> among them.
\<close>

theorem appendItems_touches_only_latest:
  assumes "distinct (map rowid (orders d))"
      and "older \<in> set (orders d)" and "table_no older = t" and "archived older = 0"
      and "newer \<in> set (orders d)" and "table_no newer = t" and "archived newer = 0"
      and "created_at older < created_at newer"
  shows "select_by_id (fst (appendItems d t p_items sr)) (rowid older) = Some older
       \<and> (\<forall>r \<in> set (orders d).
            select_by_id (fst (appendItems d t p_items sr)) (rowid r) \<noteq> Some r \<longrightarrow>
              table_no r = t \<and> archived r = 0
              \<and> (\<forall>r' \<in> set (orders d). table_no r' = t \<and> archived r' = 0 \<longrightarrow> created_at r' \<le> created_at r))"
proof -
  let ?d' = "fst (appendItems d t p_items sr)"
  have frame: "table_no r = t \<and> archived r = 0
       \<and> (\<forall>r' \<in> set (orders d). table_no r' = t \<and> archived r' = 0 \<longrightarrow> created_at r' \<le> created_at r)"
    if r: "r \<in> set (orders d)" and changed: "select_by_id ?d' (rowid r) \<noteq> Some r" for r
  proof -
    from changed select_by_id_distinct [OF assms(1) r] have "?d' \<noteq> d"
      by auto
    with fst_appendItems [of d t p_items sr] obtain existing ij where
          latest: "select_latest_active d t = Some existing"
      and d': "?d' = update_items d ij (updatedRequests existing sr) ''placed'' (rowid existing)"
      by auto
    have "rowid r = rowid existing"
    proof (rule ccontr)
      assume "rowid r \<noteq> rowid existing"
      then have "select_by_id ?d' (rowid r) = select_by_id d (rowid r)"
        by (simp add: d' select_update_items_other)
      with changed select_by_id_distinct [OF assms(1) r] show False
        by simp
    qed
    moreover have "existing \<in> set (orders d)"
      using select_latest_active_Some [OF latest] by simp
    ultimately have "r = existing"
      using assms(1) r by (auto simp: distinct_map inj_on_def)
    with select_latest_active_Some [OF latest] show ?thesis
      by simp
  qed
  have "select_by_id ?d' (rowid older) = Some older"
  proof (rule ccontr)
    assume "select_by_id ?d' (rowid older) \<noteq> Some older"
    from frame [OF assms(2) this] assms(5,6,7) have "created_at newer \<le> created_at older"
      by blast
    with assms(8) show False
      by simp
  qed
  with frame show ?thesis
    by blast
qed

theorem appendItems_touches_only_latest_witness:
  "select_by_id (fst (appendItems two_orders ''T5'' (Some (JArr [sku ''X''])) None)) 1 =
     Some \<lparr>rowid = 1, table_no = ''T5'', items_json = Some (JSON_stringify (JArr [sku ''A''])),
           special_requests = Some [], status = ''placed'', created_at = 7, archived = 0\<rparr>
   \<and> map items_json (orders (fst (appendItems two_orders ''T5'' (Some (JArr [sku ''X''])) None))) =
       [Some (JSON_stringify (JArr [sku ''A''])), Some (JSON_stringify (JArr [sku ''B'', sku ''X'']))]"
proof -
  let ?older = "\<lparr>rowid = 1, table_no = ''T5'', items_json = Some (JSON_stringify (JArr [sku ''A''])),
           special_requests = Some [], status = ''placed'', created_at = 7, archived = 0\<rparr>"
  let ?newer = "\<lparr>rowid = 2, table_no = ''T5'', items_json = Some (JSON_stringify (JArr [sku ''B''])),
           special_requests = Some [], status = ''placed'', created_at = 8, archived = 0\<rparr>"
  have db: "orders two_orders = [?older, ?newer]"
    by code_simp
  have 1: "distinct (map rowid (orders two_orders))"
    by (simp add: db)
  have 2: "?older \<in> set (orders two_orders)" "?newer \<in> set (orders two_orders)"
    by (simp_all add: db)
  have "select_by_id (fst (appendItems two_orders ''T5'' (Some (JArr [sku ''X''])) None)) (rowid ?older) = Some ?older"
    using appendItems_touches_only_latest [OF 1 2(1) _ _ 2(2), of "''T5''" "Some (JArr [sku ''X''])" None]
    by simp
  moreover have "map items_json (orders (fst (appendItems two_orders ''T5'' (Some (JArr [sku ''X''])) None))) =
       [Some (JSON_stringify (JArr [sku ''A''])), Some (JSON_stringify (JArr [sku ''B'', sku ''X'']))]"
    by code_simp
  ultimately show ?thesis
    by simp
qed






text \<open>
  C10. When the order \<open>appendItems\<close> targets has no special requests (NULL or the empty
  text) and the request brings a non-empty text, the resulting special requests are
  \<open>; \<close> followed by that text.
\<close>

theorem appendItems_separator_leads:
  assumes "appendItems d t p_items (Some s) = (d', tr)"
      and "Send 200 (OkOrder x) \<in> set tr"
      and "select_latest_active d t = Some existing"
      and "special_requests existing = None \<or> special_requests existing = Some []"
      and "s \<noteq> []"
  shows "special_requests (row x) = Some (''; '' @ s)"
proof -
  from appendItems_success [OF assms(1,2)] assms(3)
  obtain newItems updated v where
        d': "d' = update_items d (JSON_stringify newItems) (updatedRequests existing (Some s)) ''placed'' (rowid existing)"
    and u: "select_by_id d' (rowid existing) = Some updated"
    and tr: "tr = [Written, Emit ''order:items-added'' \<lparr>row = updated, items = v\<rparr>,
                  Send 200 (OkOrder \<lparr>row = updated, items = v\<rparr>)]"
    by auto
  from assms(2) tr have x: "x = \<lparr>row = updated, items = v\<rparr>"
    by simp
  from u d' have "special_requests updated = Some (updatedRequests existing (Some s))"
    by (auto simp: select_update_items)
  with assms(4,5) show ?thesis
    by (auto simp: x updatedRequests_def)
qed

theorem appendItems_separator_leads_witness:
  "\<exists>d' tr x.
      appendItems one_order ''T1'' (Some (JArr [sku ''B''])) (Some ''extra spicy'') = (d', tr)
    \<and> Send 200 (OkOrder x) \<in> set tr
    \<and> special_requests (row x) = Some ''; extra spicy''"
proof -
  let ?existing = "\<lparr>rowid = 1, table_no = ''T1'', items_json = Some ''[]'', special_requests = Some [],
       status = ''placed'', created_at = 5, archived = 0\<rparr>"
  let ?updated = "\<lparr>rowid = 1, table_no = ''T1'', items_json = Some (JSON_stringify (JArr [sku ''B''])),
       special_requests = Some ''; extra spicy'', status = ''placed'', created_at = 5, archived = 0\<rparr>"
  let ?x = "\<lparr>row = ?updated, items = JArr [sku ''B'']\<rparr>"
  let ?tr = "[Written, Emit ''order:items-added'' ?x, Send 200 (OkOrder ?x)]"
  let ?d' = "\<lparr>orders = [?updated], sequence = 1\<rparr>"
  have run: "appendItems one_order ''T1'' (Some (JArr [sku ''B''])) (Some ''extra spicy'') = (?d', ?tr)"
    by code_simp
  have sent: "Send 200 (OkOrder ?x) \<in> set ?tr"
    by simp
  have latest: "select_latest_active one_order ''T1'' = Some ?existing"
    by code_simp
  from appendItems_separator_leads [OF run sent latest]
  have "special_requests (row ?x) = Some ''; extra spicy''"
    by simp
  with run sent show ?thesis
    by (intro exI [of _ ?d'] exI [of _ ?tr] exI [of _ ?x]) simp
qed

end
